theory Spec2Isabelle
  imports Main
begin

section \<open>Errors\<close>

text \<open>
  Go \<open>error\<close> values. \<open>ErrCircularDependency\<close> and \<open>ErrNodeNotFound\<close> are the two
  sentinel errors of package \<open>graph\<close>; \<open>ErrorMsg\<close> is an error made by \<open>fmt.Errorf\<close>
  from a text alone, \<open>Wrap\<close> one made by \<open>fmt.Errorf("...: %w", err)\<close>, \<open>APIError\<close> the
  resource package's \<open>&APIError{Code, Message}\<close>.
\<close>

datatype error =
    ErrCircularDependency
  | ErrNodeNotFound
  | ErrorMsg string
  | Wrap string error
  | APIError int string

section \<open>Package graph\<close>

text \<open>
  A \<open>*Node\<close> is represented by the node's \<open>Name\<close>: the graph's map is keyed by
  \<open>node.Name\<close>, and \<open>sort\<close> reads of an edge target nothing but its \<open>Name\<close>. So the
  \<open>edges []*Node\<close> of a node are the list of the target names, in insertion order and
  with repetitions, and a sorted \<open>[]*Node\<close> is the list of the node names.

  \<open>nodes\<close> is the Go map \<open>map[string]*Node\<close>; \<open>cachedOrder\<close> is \<open>None\<close> for the nil
  slice and \<open>Some xs\<close> for a non-nil one (\<open>make([]*Node, 0, n)\<close> is non-nil also when it
  is empty).
\<close>

record Node =
  Name :: string
  edges :: "string list"

record Graph =
  nodes :: "string \<rightharpoonup> Node"
  cachedOrder :: "string list option"

definition New :: Graph where
  "New = \<lparr>nodes = Map.empty, cachedOrder = None\<rparr>"

definition NewNode :: "string \<Rightarrow> Node" where
  "NewNode name = \<lparr>Name = name, edges = []\<rparr>"

text \<open>\<open>func (n *Node) AddEdge(targets ...*Node)\<close>, on the node value.\<close>

definition Node_AddEdge :: "Node \<Rightarrow> string list \<Rightarrow> Node" where
  "Node_AddEdge n targets = n\<lparr>edges := edges n @ targets\<rparr>"

definition Invalidate :: "Graph \<Rightarrow> Graph" where
  "Invalidate g = g\<lparr>cachedOrder := None\<rparr>"

text \<open>\<open>func (g *Graph) AddNode(nodes ...*Node)\<close>: each node is stored under its name,
  overwriting; the cached order is left as it is.\<close>

definition AddNode :: "Graph \<Rightarrow> Node list \<Rightarrow> Graph" where
  "AddNode g ns = fold (\<lambda>node g'. g'\<lparr>nodes := (nodes g')(Name node \<mapsto> node)\<rparr>) ns g"

text \<open>\<open>func (g *Graph) AddEdge(source *Node, targets ...*Node) error\<close>: the source is
  looked up by name, the targets are not looked up at all.\<close>

definition AddEdge :: "Graph \<Rightarrow> string \<Rightarrow> string list \<Rightarrow> error option \<times> Graph" where
  "AddEdge g source targets =
     (case nodes g source of
        Some n \<Rightarrow> (None, Invalidate (g\<lparr>nodes := (nodes g)(source \<mapsto> Node_AddEdge n targets)\<rparr>))
      | None \<Rightarrow> (Some ErrNodeNotFound, g))"

text \<open>\<open>func (g *Graph) AddEdgeByName(sourceName string, targetNames ...string) error\<close>:
  the source and every target must be nodes of the graph.\<close>

definition AddEdgeByName :: "Graph \<Rightarrow> string \<Rightarrow> string list \<Rightarrow> error option \<times> Graph" where
  "AddEdgeByName g sourceName targetNames =
     (case nodes g sourceName of
        None \<Rightarrow> (Some (Wrap (''source node '' @ sourceName) ErrNodeNotFound), g)
      | Some sourceNode \<Rightarrow>
          (case find (\<lambda>t. nodes g t = None) targetNames of
             Some t \<Rightarrow> (Some (Wrap (''target node '' @ t) ErrNodeNotFound), g)
           | None \<Rightarrow>
               (None, Invalidate
                  (g\<lparr>nodes := (nodes g)(sourceName \<mapsto> Node_AddEdge sourceNode targetNames)\<rparr>))))"

subsection \<open>The topological sort\<close>

text \<open>
  Reading a missing key of a Go map yields the zero value: \<open>0\<close> for \<open>inDegree\<close>, the nil
  slice for \<open>adj\<close>. Go's \<open>int\<close> is modelled by \<open>int\<close>: an in-degree is at most the number
  of edges held in memory.
\<close>

definition geti :: "(string \<rightharpoonup> int) \<Rightarrow> string \<Rightarrow> int" where
  "geti m k = (case m k of None \<Rightarrow> 0 | Some d \<Rightarrow> d)"

definition geta :: "(string \<rightharpoonup> string list) \<Rightarrow> string \<Rightarrow> string list" where
  "geta m k = (case m k of None \<Rightarrow> [] | Some xs \<Rightarrow> xs)"

text \<open>The body of the inner loop of the initialisation: \<open>adj[name] = append(adj[name],
  edgeTarget); inDegree[edgeTarget.Name]++\<close>.\<close>

definition count_edge ::
  "string \<Rightarrow> string \<Rightarrow> (string \<rightharpoonup> int) \<times> (string \<rightharpoonup> string list) \<Rightarrow>
   (string \<rightharpoonup> int) \<times> (string \<rightharpoonup> string list)" where
  "count_edge name edgeTarget s =
     (case s of (inDegree, adj) \<Rightarrow>
        (inDegree(edgeTarget \<mapsto> geti inDegree edgeTarget + 1),
         adj(name \<mapsto> geta adj name @ [edgeTarget])))"

text \<open>One round of \<open>for name, node := range g.nodes\<close>.\<close>

definition init_node ::
  "Graph \<Rightarrow> string \<Rightarrow> (string \<rightharpoonup> int) \<times> (string \<rightharpoonup> string list) \<Rightarrow>
   (string \<rightharpoonup> int) \<times> (string \<rightharpoonup> string list)" where
  "init_node g name s =
     (case nodes g name of
        None \<Rightarrow> s
      | Some node \<Rightarrow>
          (case s of (inDegree, adj) \<Rightarrow>
             fold (count_edge name) (edges node)
               (if inDegree name = None then inDegree(name \<mapsto> 0) else inDegree,
                if adj name = None then adj(name \<mapsto> []) else adj)))"

text \<open>The whole initialisation. Go leaves the iteration order of a map open: \<open>order1\<close> is
  the order in which this loop meets the keys of \<open>g.nodes\<close>.\<close>

definition init_maps ::
  "Graph \<Rightarrow> string list \<Rightarrow> (string \<rightharpoonup> int) \<times> (string \<rightharpoonup> string list)" where
  "init_maps g order1 = fold (init_node g) order1 (Map.empty, Map.empty)"

text \<open>The body of \<open>for _, m := range adj[n.Name]\<close>: decrement, and enqueue at zero.\<close>

definition relax ::
  "string \<Rightarrow> (string \<rightharpoonup> int) \<times> string list \<Rightarrow> (string \<rightharpoonup> int) \<times> string list" where
  "relax m s =
     (case s of (inDegree, queue) \<Rightarrow>
        (inDegree(m \<mapsto> geti inDegree m - 1),
         if geti inDegree m - 1 = 0 then queue @ [m] else queue))"

text \<open>\<open>for len(queue) > 0 { ... }\<close>. The loop has no bound of its own, so the model is a
  partial function: \<open>None\<close> stands for a loop that does not end.\<close>

partial_function (option) kahn_loop ::
  "(string \<rightharpoonup> string list) \<Rightarrow> string list \<Rightarrow> (string \<rightharpoonup> int) \<Rightarrow> string list \<Rightarrow>
   string list option" where
  "kahn_loop adj queue inDegree out =
     (if queue = [] then Some out
      else kahn_loop adj (snd (fold relax (geta adj (hd queue)) (inDegree, tl queue)))
             (fst (fold relax (geta adj (hd queue)) (inDegree, tl queue)))
             (out @ [hd queue]))"

text \<open>\<open>func (g *Graph) sort() ([]*Node, error)\<close>. \<open>order2\<close> is the order in which the
  seeding loop meets the keys of \<open>inDegree\<close>. A key with in-degree zero was never an edge
  target, so it is a key of \<open>g.nodes\<close> and \<open>g.GetNode(name)\<close> finds the node of that
  name.\<close>

definition Graph_sort :: "Graph \<Rightarrow> string list \<Rightarrow> string list \<Rightarrow> (error + string list) option" where
  "Graph_sort g order1 order2 =
     (case init_maps g order1 of (inDegree, adj) \<Rightarrow>
        (case kahn_loop adj (filter (\<lambda>name. inDegree name = Some 0) order2) inDegree [] of
           None \<Rightarrow> None
         | Some out \<Rightarrow>
             Some (if length out \<noteq> card (dom (nodes g)) then Inl ErrCircularDependency
                   else Inr out)))"

text \<open>\<open>func (g *Graph) Sort() ([]*Node, error)\<close>: the cached order when there is one,
  else the computed order, cached when the sort succeeds.\<close>

definition Graph_Sort ::
  "Graph \<Rightarrow> string list \<Rightarrow> string list \<Rightarrow> ((error + string list) \<times> Graph) option" where
  "Graph_Sort g order1 order2 =
     (case cachedOrder g of
        Some cached \<Rightarrow> Some (Inr cached, g)
      | None \<Rightarrow>
          (case Graph_sort g order1 order2 of
             None \<Rightarrow> None
           | Some (Inl err) \<Rightarrow> Some (Inl err, g)
           | Some (Inr out) \<Rightarrow> Some (Inr out, g\<lparr>cachedOrder := Some out\<rparr>)))"

section \<open>Package resource\<close>

subsection \<open>Error texts\<close>

text \<open>\<open>%d\<close> of a natural number.\<close>

function decimal_nat :: "nat \<Rightarrow> string" where
  "decimal_nat n =
     (if n < 10 then [char_of (48 + n)]
      else decimal_nat (n div 10) @ [char_of (48 + n mod 10)])"
  by pat_completeness auto
termination
  by (relation "measure id") auto



subsection \<open>The agent's client\<close>

text \<open>
  \<open>type State string\<close> with its three named values; \<open>Operation\<close> is the enumeration of
  what \<open>Apply\<close> did last.
\<close>

type_synonym State = string

definition StateUnknown :: State where "StateUnknown = ''unknown''"
definition StateAbsent :: State where "StateAbsent = ''absent''"
definition StatePresent :: State where "StatePresent = ''present''"

datatype Operation = OperationNone | OperationCreate | OperationUpdate | OperationDelete

text \<open>\<open>models.FileProperties\<close>, the payload of the file endpoints (api/openapi.yaml).\<close>

record FileProperties =
  Mode :: string
  Owner :: string
  Group :: string
  Checksum :: string

text \<open>
  The generated client (\<open>api/client/files\<close>, \<open>api/client/content\<close>) is not among the
  sources. An error it returns is represented by what the resource code observes of it:
  whether \<open>errors.As\<close> finds a \<open>GetFilePropertiesNotFound\<close> in it (\<open>fileNotFound\<close>), the
  \<open>models.Error\<close> payload \<open>getErrorPayload\<close> extracts from it (code and message, or nil),
  and its text.
\<close>

record ClientError =
  isNotFound :: bool
  errorPayload :: "(int \<times> string) option"
  errorText :: string

definition fileNotFound :: "ClientError \<Rightarrow> bool" where
  "fileNotFound err = isNotFound err"

definition getErrorPayload :: "ClientError \<Rightarrow> (int \<times> string) option" where
  "getErrorPayload err = errorPayload err"

text \<open>
  The requests a file resource sends, with the parameters it sets: the path, the
  properties, the \<open>If-Match\<close> parameter (\<open>None\<close> when \<open>SetIfMatch\<close> was not called), and for
  an upload the \<open>recursive\<close> flag and the content.
\<close>

datatype request =
    GetFilePropertiesRequest string
  | DeleteFileRequest string "string option"
  | PutFileRequest string FileProperties "string option"
  | UploadRequest string bool string

text \<open>
  The agent as the client shows it. \<open>GetFileProperties\<close> answers with an error or with
  the response's \<open>Payload\<close> (which may be nil) and \<open>ETag\<close>; \<open>DeleteFile\<close> with an error or
  nil; \<open>PutFile\<close> with an error or with the \<open>ETag\<close> of its \<open>created\<close> and of its
  \<open>noContent\<close> result, each \<open>None\<close> when that result is nil; \<open>Upload\<close> with an error or
  nil.
\<close>

record Client =
  GetFileProperties :: "string \<Rightarrow> ClientError + (FileProperties option \<times> string)"
  DeleteFile :: "string \<Rightarrow> string option \<Rightarrow> ClientError option"
  PutFile :: "string \<Rightarrow> FileProperties \<Rightarrow> string option \<Rightarrow>
              ClientError + (string option \<times> string option)"
  Upload :: "string \<Rightarrow> bool \<Rightarrow> string \<Rightarrow> ClientError option"

subsection \<open>The file-property resource\<close>

text \<open>\<open>fileProperties\<close>: the desired properties, each a \<open>*string\<close> that is nil when the
  manifest does not set it.\<close>

record fileProperties =
  desired_Mode :: "string option"
  desired_Owner :: "string option"
  desired_Group :: "string option"

text \<open>
  \<open>File\<close> without its \<open>cfg\<close>: the client is passed to each method. \<open>desiredProperties\<close> is
  never nil, \<open>NewFile\<close> always allocates it. The fields that \<open>NewFile\<close> does not set have
  Go's zero values.
\<close>

record File =
  desiredState :: State
  path :: string
  desiredProperties :: fileProperties
  currentState :: State
  currentProperties :: "FileProperties option"
  etag :: string
  lastOperation :: Operation

definition NewFile ::
  "State \<Rightarrow> string \<Rightarrow> string option \<Rightarrow> string option \<Rightarrow> string option \<Rightarrow> File" where
  "NewFile state p mode owner grp =
     \<lparr>desiredState = state, path = p,
      desiredProperties = \<lparr>desired_Mode = mode, desired_Owner = owner, desired_Group = grp\<rparr>,
      currentState = '''', currentProperties = None, etag = '''',
      lastOperation = OperationNone\<rparr>"

text \<open>\<open>desired != nil && *desired != actual\<close>, the test of \<open>propertiesMatch\<close> and of
  \<open>Diff\<close>'s \<open>compare\<close>.\<close>

definition differs :: "string option \<Rightarrow> string \<Rightarrow> bool" where
  "differs desired actual = (case desired of None \<Rightarrow> False | Some d \<Rightarrow> d \<noteq> actual)"

definition propertiesMatch :: "File \<Rightarrow> bool" where
  "propertiesMatch f =
     (case currentProperties f of
        None \<Rightarrow> False
      | Some cur \<Rightarrow>
          if differs (desired_Mode (desiredProperties f)) (Mode cur) then False
          else if differs (desired_Owner (desiredProperties f)) (Owner cur) then False
          else if differs (desired_Group (desiredProperties f)) (Group cur) then False
          else True)"

text \<open>The error a failed client call is turned into: the payload as an \<open>APIError\<close> when
  there is one, else the given text (wrapping the client's error where the source does).\<close>

definition api_error :: "ClientError \<Rightarrow> error \<Rightarrow> error" where
  "api_error err other =
     (case getErrorPayload err of Some (code, msg) \<Rightarrow> APIError code msg | None \<Rightarrow> other)"

text \<open>\<open>func (f *File) Check(ctx) (bool, error)\<close>. Every method returns its result, the
  resource after the call, and the requests it sent.\<close>

definition File_Check :: "Client \<Rightarrow> File \<Rightarrow> (error + bool) \<times> File \<times> request list" where
  "File_Check client f =
     (case GetFileProperties client (path f) of
        Inl err \<Rightarrow>
          if fileNotFound err then
            (Inr (desiredState f = StatePresent),
             f\<lparr>currentState := StateAbsent, currentProperties := None, etag := ''''\<rparr>,
             [GetFilePropertiesRequest (path f)])
          else
            (Inl (api_error err (ErrorMsg ''failed to check file'')), f,
             [GetFilePropertiesRequest (path f)])
      | Inr (payload, tag) \<Rightarrow>
          (case payload of
             None \<Rightarrow>
               (Inl (ErrorMsg ''received empty payload''), f, [GetFilePropertiesRequest (path f)])
           | Some props \<Rightarrow>
               (if desiredState f = StateAbsent then Inr True
                else Inr (\<not> propertiesMatch
                       (f\<lparr>currentState := StatePresent, currentProperties := Some props,
                          etag := tag\<rparr>)),
                f\<lparr>currentState := StatePresent, currentProperties := Some props, etag := tag\<rparr>,
                [GetFilePropertiesRequest (path f)])))"

text \<open>\<open>compare\<close> of \<open>Diff\<close>: \<open>"- %s: %q\n+ %s: %q\n"\<close> when the desired value is set and
  differs. \<open>quote\<close> stands for Go's \<open>%q\<close> (\<open>strconv.Quote\<close>).\<close>

definition compare :: "(string \<Rightarrow> string) \<Rightarrow> string \<Rightarrow> string option \<Rightarrow> string \<Rightarrow> string" where
  "compare quote name desired actual =
     (case desired of
        None \<Rightarrow> ''''
      | Some d \<Rightarrow>
          if d \<noteq> actual then
            ''- '' @ name @ '': '' @ quote actual @ [CHR 0x0A] @
            ''+ '' @ name @ '': '' @ quote d @ [CHR 0x0A]
          else '''')"

text \<open>\<open>func (f *File) Diff(ctx) (string, error)\<close>. The builder \<open>sb\<close> receives the header
  line first, then the three comparisons; the test \<open>sb.Len() == 0\<close> comes last.\<close>

definition File_Diff :: "(string \<Rightarrow> string) \<Rightarrow> File \<Rightarrow> error + string" where
  "File_Diff quote f =
     (if desiredState f = StateAbsent \<and> currentState f = StatePresent then
        Inr (''diff -- file: '' @ path f @ [CHR 0x0A] @
             ''- present (file will be deleted)'' @ [CHR 0x0A])
      else if desiredState f = StatePresent \<and> currentState f = StateAbsent then
        Inr (''diff -- file: '' @ path f @ [CHR 0x0A] @
             ''+ present (file will be created)'' @ [CHR 0x0A])
      else
        (case currentProperties f of
           None \<Rightarrow> Inl (ErrorMsg ''no current state available for diff'')
         | Some cur \<Rightarrow>
             (let sb = ''diff -- file: '' @ path f @ [CHR 0x0A] @
                       compare quote ''mode'' (desired_Mode (desiredProperties f)) (Mode cur) @
                       compare quote ''owner'' (desired_Owner (desiredProperties f)) (Owner cur) @
                       compare quote ''group'' (desired_Group (desiredProperties f)) (Group cur)
              in if length sb = 0 then Inr '''' else Inr sb)))"

text \<open>The \<open>props\<close> that \<open>Apply\<close> sends: the desired value of each field that is set, the
  empty string for the others.\<close>

definition desired_props :: "File \<Rightarrow> FileProperties" where
  "desired_props f =
     \<lparr>Mode = (case desired_Mode (desiredProperties f) of Some m \<Rightarrow> m | None \<Rightarrow> ''''),
      Owner = (case desired_Owner (desiredProperties f) of Some v \<Rightarrow> v | None \<Rightarrow> ''''),
      Group = (case desired_Group (desiredProperties f) of Some v \<Rightarrow> v | None \<Rightarrow> ''''),
      Checksum = ''''\<rparr>"

text \<open>The two parts of \<open>Apply\<close> after \<open>f.lastOperation = OperationNone\<close>: the deletion and
  the put.\<close>

definition apply_delete :: "Client \<Rightarrow> File \<Rightarrow> error option \<times> File \<times> request list" where
  "apply_delete client f =
     (if currentState f = desiredState f then (None, f, [])
      else
        (let ifMatch = (if etag f \<noteq> '''' then Some (etag f) else None) in
         case DeleteFile client (path f) ifMatch of
           Some err \<Rightarrow>
             (Some (api_error err (Wrap ''failed to apply file'' (ErrorMsg (errorText err)))),
              f, [DeleteFileRequest (path f) ifMatch])
         | None \<Rightarrow>
             (None, f\<lparr>lastOperation := OperationDelete\<rparr>,
              [DeleteFileRequest (path f) ifMatch])))"

definition apply_put :: "Client \<Rightarrow> File \<Rightarrow> error option \<times> File \<times> request list" where
  "apply_put client f =
     (let ifMatch = (if currentProperties f \<noteq> None \<and> etag f \<noteq> '''' then Some (etag f)
                     else None) in
      case PutFile client (path f) (desired_props f) ifMatch of
        Inl err \<Rightarrow>
          (Some (api_error err (Wrap ''failed to apply file'' (ErrorMsg (errorText err)))),
           f, [PutFileRequest (path f) (desired_props f) ifMatch])
      | Inr (created, noContent) \<Rightarrow>
          (case created of
             Some tag \<Rightarrow>
               (None, f\<lparr>lastOperation := OperationCreate, etag := tag\<rparr>,
                [PutFileRequest (path f) (desired_props f) ifMatch])
           | None \<Rightarrow>
               (case noContent of
                  Some tag \<Rightarrow>
                    (None, f\<lparr>lastOperation := OperationUpdate, etag := tag\<rparr>,
                     [PutFileRequest (path f) (desired_props f) ifMatch])
                | None \<Rightarrow>
                    (Some (ErrorMsg ''unexpected nil response''), f,
                     [PutFileRequest (path f) (desired_props f) ifMatch]))))"

text \<open>\<open>func (f *File) Apply(ctx) error\<close>.\<close>

definition File_Apply :: "Client \<Rightarrow> File \<Rightarrow> error option \<times> File \<times> request list" where
  "File_Apply client f =
     (if desiredState f = StateAbsent then apply_delete client (f\<lparr>lastOperation := OperationNone\<rparr>)
      else apply_put client (f\<lparr>lastOperation := OperationNone\<rparr>))"

text \<open>\<open>rollbackProperties\<close>: put the properties observed by \<open>Check\<close> back.\<close>

definition rollbackProperties :: "Client \<Rightarrow> File \<Rightarrow> error option \<times> File \<times> request list" where
  "rollbackProperties client f =
     (case currentProperties f of
        None \<Rightarrow> (Some (ErrorMsg ''no properties to rollback''), f, [])
      | Some cur \<Rightarrow>
          (let props = \<lparr>Mode = Mode cur, Owner = Owner cur, Group = Group cur, Checksum = ''''\<rparr>;
               ifMatch = (if etag f \<noteq> '''' then Some (etag f) else None) in
           case PutFile client (path f) props ifMatch of
             Inl err \<Rightarrow>
               (Some (api_error err (Wrap ''failed to put file'' (ErrorMsg (errorText err)))),
                f, [PutFileRequest (path f) props ifMatch])
           | Inr _ \<Rightarrow> (None, f, [PutFileRequest (path f) props ifMatch])))"

text \<open>
  The backup artifact as \<open>restoreFromBackup\<close> finds it on the local disk: its path
  (\<open>f.backupPath()\<close>), and whether \<open>os.Stat\<close> reports it missing, \<open>os.Open\<close> fails, or the
  file opens with some content.
\<close>

datatype backup_file = BackupMissing | BackupUnreadable string | BackupContent string

record backup_store =
  backupPath :: string
  backupFile :: backup_file

definition restoreFromBackup ::
  "Client \<Rightarrow> backup_store \<Rightarrow> File \<Rightarrow> error option \<times> File \<times> request list" where
  "restoreFromBackup client store f =
     (case backupFile store of
        BackupMissing \<Rightarrow> (Some (ErrorMsg (''no backup file found at '' @ backupPath store)), f, [])
      | BackupUnreadable txt \<Rightarrow> (Some (Wrap ''failed to open backup'' (ErrorMsg txt)), f, [])
      | BackupContent content \<Rightarrow>
          (case Upload client (path f) False content of
             Some err \<Rightarrow>
               (Some (api_error err
                        (Wrap ''failed to restore file from backup'' (ErrorMsg (errorText err)))),
                f, [UploadRequest (path f) False content])
           | None \<Rightarrow> (None, f, [UploadRequest (path f) False content])))"

text \<open>\<open>func (f *File) Rollback(ctx) error\<close>.\<close>

definition File_Rollback ::
  "Client \<Rightarrow> backup_store \<Rightarrow> File \<Rightarrow> error option \<times> File \<times> request list" where
  "File_Rollback client store f =
     (case lastOperation f of
        OperationNone \<Rightarrow> (None, f, [])
      | OperationCreate \<Rightarrow>
          (case DeleteFile client (path f) (Some (etag f)) of
             Some err \<Rightarrow>
               (Some (api_error err (Wrap ''failed to delete file'' (ErrorMsg (errorText err)))),
                f, [DeleteFileRequest (path f) (Some (etag f))])
           | None \<Rightarrow> (None, f, [DeleteFileRequest (path f) (Some (etag f))]))
      | OperationUpdate \<Rightarrow> rollbackProperties client f
      | OperationDelete \<Rightarrow> restoreFromBackup client store f)"

subsection \<open>The command-execution resource\<close>

text \<open>\<open>CommandOptions\<close> and \<open>Command\<close> (without \<open>cfg\<close>); the timeout is a
  \<open>time.Duration\<close>, a number of nanoseconds.\<close>

record CommandOptions =
  IsConcurrent :: bool
  Timeout :: int
  ExpectedExitCodes :: "int list"

record Command =
  command :: string
  commandOptions :: CommandOptions

text \<open>\<open>Check\<close>, \<open>Backup\<close> and \<open>Rollback\<close> of a command: constant results, and no use of
  the client.\<close>

definition Command_Check :: "Client \<Rightarrow> Command \<Rightarrow> (error + bool) \<times> Command \<times> request list" where
  "Command_Check client c = (Inr True, c, [])"

definition Command_Backup :: "Client \<Rightarrow> Command \<Rightarrow> (error + bool) \<times> Command \<times> request list" where
  "Command_Backup client c = (Inr False, c, [])"

definition Command_Rollback :: "Client \<Rightarrow> Command \<Rightarrow> error option \<times> Command \<times> request list" where
  "Command_Rollback client c = (None, c, [])"

section \<open>Package orchestrator\<close>

subsection \<open>Resources, specs, attempts, the summary\<close>

text \<open>
  The interface \<open>resource.Resource\<close> with the optional interfaces \<open>Validatable\<close> and
  \<open>Backupable\<close>. A method that takes the context may change the resource's own state and
  the agent and may observe the context: all of that is the world \<open>'w\<close>, which every such
  method takes and returns. \<open>Validate\<close> is \<open>None\<close> for a resource that is not
  \<open>Validatable\<close>, else the result of \<open>Validate()\<close>; \<open>Backup\<close> is \<open>None\<close> for a resource that
  is not \<open>Backupable\<close>.
\<close>

record 'w Resource =
  ResourceName :: string
  Check :: "'w \<Rightarrow> (error + bool) \<times> 'w"
  Diff :: "'w \<Rightarrow> (error + string) \<times> 'w"
  Apply :: "'w \<Rightarrow> error option \<times> 'w"
  Rollback :: "'w \<Rightarrow> error option \<times> 'w"
  Validate :: "error option option"
  Backup :: "('w \<Rightarrow> (error + bool) \<times> 'w) option"

text \<open>\<open>ResourceSpec\<close>; the interface value \<open>Resource\<close> may be nil.\<close>

record 'w ResourceSpec =
  Id :: string
  Resource :: "'w Resource option"
  Dependencies :: "string list"

record Attempt =
  AttemptId :: string
  AttemptName :: string
  Changes :: string
  NeedsApply :: bool
  EvaluationError :: "error option"
  BackupAttempted :: bool
  BackedUp :: bool
  BackupError :: "error option"
  ApplyAttempted :: bool
  Applied :: bool
  ApplyError :: "error option"
  RollbackAttempted :: bool
  RolledBack :: bool
  RollbackError :: "error option"
  Skipped :: bool


text \<open>\<open>Summary\<close>; the counters are lengths and counts of nodes.\<close>

record Summary =
  Success :: bool
  Error :: "error option"
  Attempts :: "string \<rightharpoonup> Attempt"
  TotalCount :: nat
  AppliedCount :: nat
  SkippedCount :: nat
  RollbackCount :: nat


text \<open>\<open>Options\<close> without the reporter: the calls of the reporter are recorded, in order,
  as a list of events.\<close>

record Options =
  DryRun :: bool
  BackupEnabled :: bool
  Concurrency :: int

datatype event =
    ReportInfo string
  | ReportWarn string
  | ReportError string
  | ReportEvaluate string string
  | ReportNoChanges string string
  | ReportSkipped string string
  | ReportDiff string string string
  | ReportApply string string
  | ReportBackuped string string
  | ReportRollback string string
  | ReportSuccess string string
  | ReportFail string string error

text \<open>\<open>Orchestrator\<close>; its field \<open>g\<close> is called \<open>graph\<close> here.\<close>

record 'w Orchestrator =
  options :: Options
  specs :: "string \<rightharpoonup> 'w ResourceSpec"
  graph :: Graph

definition NewOrchestrator :: "Options \<Rightarrow> 'w Orchestrator" where
  "NewOrchestrator opts = \<lparr>options = opts, specs = Map.empty, graph = New\<rparr>"

subsection \<open>Registration and wiring\<close>

text \<open>\<open>func (o *Orchestrator) Add(rs ResourceSpec) error\<close>. (The texts of the errors are
  kept without the quoting of \<open>%q\<close>.)\<close>

definition Add :: "'w Orchestrator \<Rightarrow> 'w ResourceSpec \<Rightarrow> error option \<times> 'w Orchestrator" where
  "Add orch rs =
     (if Id rs = '''' then (Some (ErrorMsg ''resource ID cannot be empty''), orch)
      else if specs orch (Id rs) \<noteq> None then
        (Some (ErrorMsg (''duplicate resource spec id: '' @ Id rs)), orch)
      else
        (case (case Resource rs of None \<Rightarrow> None | Some r \<Rightarrow> Validate r) of
           Some (Some err) \<Rightarrow>
             (Some (Wrap (''resource validation failed for '' @ Id rs) err), orch)
         | _ \<Rightarrow>
             (None, orch\<lparr>specs := (specs orch)(Id rs \<mapsto> rs),
                         graph := AddNode (graph orch) [NewNode (Id rs)]\<rparr>)))"




subsection \<open>The lifecycle of one resource\<close>


text \<open>\<open>func (o *Orchestrator) backup(ctx, attempt, r) error\<close>.\<close>

definition backup ::
  "Options \<Rightarrow> 'w Resource \<Rightarrow> Attempt \<Rightarrow> 'w \<Rightarrow> event list \<Rightarrow>
   error option \<times> Attempt \<times> 'w \<times> event list" where
  "backup opts r attempt w ev =
     (if \<not> BackupEnabled opts then (None, attempt, w, ev)
      else
        (case Backup r of
           None \<Rightarrow> (None, attempt, w, ev)
         | Some b \<Rightarrow>
             (case b w of
                (Inl err, w1) \<Rightarrow>
                  (Some (Wrap ''backup failed'' err),
                   attempt\<lparr>BackupAttempted := True, BackupError := Some err\<rparr>, w1,
                   ev @ [ReportFail (AttemptId attempt) (AttemptName attempt) err])
              | (Inr backuped, w1) \<Rightarrow>
                  if backuped then
                    (None, attempt\<lparr>BackupAttempted := True, BackedUp := True\<rparr>, w1,
                     ev @ [ReportBackuped (AttemptId attempt) (AttemptName attempt)])
                  else (None, attempt\<lparr>BackupAttempted := True\<rparr>, w1, ev))))"


subsection \<open>The run\<close>

text \<open>
  What the loop of \<open>Run\<close> carries from node to node: the summary, the flag \<open>failed\<close>, the
  slice \<open>applied\<close>, the world and the reporter's events. An element of \<open>applied\<close> is an
  \<open>*Attempt\<close> that is also the entry of \<open>summary.Attempts\<close> under its \<open>Id\<close>; the model keeps
  the attempt's value in the list and writes every change through to that entry. (The
  two agree because no name occurs twice in a sorted order.)
\<close>

record 'w run_state =
  summary :: Summary
  failed :: bool
  applied :: "Attempt list"
  world :: 'w
  events :: "event list"

text \<open>The end of one round of the loop: the attempt, as the round left it, is the entry
  of its node; the world and the events are those after the round.\<close>

definition finish_node :: "'w run_state \<Rightarrow> string \<Rightarrow> Attempt \<Rightarrow> 'w \<Rightarrow> event list \<Rightarrow> 'w run_state" where
  "finish_node st name attempt w ev =
     st\<lparr>summary := (summary st)\<lparr>Attempts := (Attempts (summary st))(name \<mapsto> attempt)\<rparr>,
        world := w, events := ev\<rparr>"


text \<open>\<open>o.specs[node.Name].Resource\<close>: nil when the name has no spec (the zero
  \<open>ResourceSpec\<close>) or the spec holds no resource.\<close>

definition resource_of :: "(string \<rightharpoonup> 'w ResourceSpec) \<Rightarrow> string \<Rightarrow> 'w Resource option" where
  "resource_of sp name = (case sp name of None \<Rightarrow> None | Some rs \<Rightarrow> Resource rs)"



text \<open>
  \<open>func (o *Orchestrator) rollback(ctx, applied) int\<close>, from the last applied attempt
  to the first: \<open>todo\<close> is what is left of the reversed slice, \<open>steps\<close> the number of
  attempts already handled, \<open>count\<close> the number of rollbacks that succeeded. The result
  is \<open>None\<close> when a nil resource makes \<open>r.Rollback\<close> panic.
\<close>

fun rollback_steps ::
  "(string \<rightharpoonup> 'w ResourceSpec) \<Rightarrow> ('w \<Rightarrow> error option) \<Rightarrow> Attempt list \<Rightarrow> nat \<Rightarrow> nat \<Rightarrow>
   'w run_state \<Rightarrow> (nat \<times> 'w run_state) option" where
  "rollback_steps sp ctx [] steps count st =
     Some (count, st\<lparr>events := events st @ [ReportInfo ''Rollback finished.'']\<rparr>)"
| "rollback_steps sp ctx (attempt # todo) steps count st =
     (if ctx (world st) \<noteq> None then
        Some (count,
          st\<lparr>events := events st @
             [ReportWarn (''Rollback interrupted by context cancellation after '' @
                          decimal_nat steps @ '' steps'')]\<rparr>)
      else
        (case resource_of sp (AttemptId attempt) of
           None \<Rightarrow> None
         | Some r \<Rightarrow>
             (case Rollback r (world st) of
                (Some err, w1) \<Rightarrow>
                  rollback_steps sp ctx todo (steps + 1) count
                    (finish_node st (AttemptId attempt)
                       (attempt\<lparr>RollbackAttempted := True, RollbackError := Some err\<rparr>) w1
                       (events st @
                          [ReportRollback (AttemptId attempt) (AttemptName attempt),
                           ReportFail (AttemptId attempt) (AttemptName attempt)
                             (Wrap ''rollback failed'' err)]))
              | (None, w1) \<Rightarrow>
                  rollback_steps sp ctx todo (steps + 1) (count + 1)
                    (finish_node st (AttemptId attempt)
                       (attempt\<lparr>RollbackAttempted := True, RolledBack := True\<rparr>) w1
                       (events st @
                          [ReportRollback (AttemptId attempt) (AttemptName attempt)])))))"

definition rollback ::
  "(string \<rightharpoonup> 'w ResourceSpec) \<Rightarrow> ('w \<Rightarrow> error option) \<Rightarrow> Attempt list \<Rightarrow> 'w run_state \<Rightarrow>
   (nat \<times> 'w run_state) option" where
  "rollback sp ctx appl st =
     rollback_steps sp ctx (rev appl) 0 0
       (st\<lparr>events := events st @ [ReportInfo ''Starting rollback...'']\<rparr>)"



subsection \<open>Notions for stating the order property\<close>

text \<open>The outgoing edges of the node registered under a name (none for an unknown name).\<close>

definition edges_of :: "Graph \<Rightarrow> string \<Rightarrow> string list" where
  "edges_of g name = (case nodes g name of None \<Rightarrow> [] | Some node \<Rightarrow> edges node)"

text \<open>\<open>edge g d s\<close>: the node \<open>d\<close> of the graph has an edge to \<open>s\<close>, that is, \<open>d\<close> must
  run before \<open>s\<close> (\<open>s\<close> depends on \<open>d\<close>).\<close>

definition edge :: "Graph \<Rightarrow> string \<Rightarrow> string \<Rightarrow> bool" where
  "edge g d s = (s \<in> set (edges_of g d))"

text \<open>Every edge target is itself a node of the graph. \<open>AddEdgeByName\<close> keeps a graph
  closed; \<open>AddEdge\<close> does not look at its targets.\<close>

definition closed :: "Graph \<Rightarrow> bool" where
  "closed g = (\<forall>name node. nodes g name = Some node \<longrightarrow> set (edges node) \<subseteq> dom (nodes g))"

definition has_cycle :: "Graph \<Rightarrow> bool" where
  "has_cycle g = (\<exists>v. (v, v) \<in> {(d, s). edge g d s}\<^sup>+)"

text \<open>\<open>before d s xs\<close>: some occurrence of \<open>d\<close> in \<open>xs\<close> is followed, later, by an
  occurrence of \<open>s\<close>.\<close>

fun before :: "'a \<Rightarrow> 'a \<Rightarrow> 'a list \<Rightarrow> bool" where
  "before d s [] = False"
| "before d s (x # xs) = ((x = d \<and> s \<in> set xs) \<or> before d s xs)"

text \<open>The in-degree of \<open>v\<close> counted over the edges that leave the nodes in \<open>S\<close>.\<close>

definition rem_deg :: "Graph \<Rightarrow> string set \<Rightarrow> string \<Rightarrow> int" where
  "rem_deg g S v = (\<Sum>u\<in>S. int (count_list (edges_of g u) v))"

text \<open>The invariant of the queue loop: \<open>out @ queue\<close> lists, without repetition, the nodes
  whose in-degree over the nodes not yet in \<open>out\<close> is zero, \<open>inDegree\<close> holds exactly
  these in-degrees, and the list respects every edge into it.\<close>

definition kahn_inv :: "Graph \<Rightarrow> string list \<Rightarrow> (string \<rightharpoonup> int) \<Rightarrow> string list \<Rightarrow> bool" where
  "kahn_inv g queue inDegree out =
     (distinct (out @ queue) \<and> set (out @ queue) \<subseteq> dom (nodes g) \<and>
      (\<forall>v. geti inDegree v = rem_deg g (dom (nodes g) - set out) v) \<and>
      (\<forall>v. v \<in> set (out @ queue) \<longleftrightarrow>
           v \<in> dom (nodes g) \<and> rem_deg g (dom (nodes g) - set out) v = 0) \<and>
      (\<forall>d s. edge g d s \<and> s \<in> set (out @ queue) \<longrightarrow> before d s (out @ queue)))"

subsection \<open>Example graphs\<close>

text \<open>The linear graph of the package's test \<open>TestSort\<close>: nodes \<open>A\<close>, \<open>B\<close>, \<open>C\<close> and the
  edges \<open>A \<rightarrow> B\<close>, \<open>B \<rightarrow> C\<close> added by name.\<close>

definition g_chain :: Graph where
  "g_chain =
     snd (AddEdgeByName
       (snd (AddEdgeByName (AddNode New [NewNode ''A'', NewNode ''B'', NewNode ''C''])
          ''A'' [''B'']))
       ''B'' [''C''])"

text \<open>The cyclic graph of the same test: \<open>A \<rightarrow> B\<close> and \<open>B \<rightarrow> A\<close>.\<close>

definition g_cycle :: Graph where
  "g_cycle =
     snd (AddEdgeByName
       (snd (AddEdgeByName (AddNode New [NewNode ''A'', NewNode ''B'']) ''A'' [''B'']))
       ''B'' [''A''])"

text \<open>
  A graph with an edge that leaves the node set:
  \<^verbatim>\<open>g := New(); c, a := NewNode("c"), NewNode("a"); g.AddNode(c, a)\<close>
  \<^verbatim>\<open>g.AddEdge(c, NewNode("x")); g.AddEdge(a, a)\<close>
  The node \<open>x\<close> is never added to the graph, and \<open>a\<close> has an edge to itself.
\<close>

definition g_dangling :: Graph where
  "g_dangling =
     snd (AddEdge (snd (AddEdge (AddNode New [NewNode ''c'', NewNode ''a'']) ''c'' [''x'']))
       ''a'' [''a''])"

subsection \<open>Example files and agents\<close>

text \<open>The file of the spec's scenario "Idempotent file": \<open>/etc/foo\<close>, desired present
  with mode \<open>0644\<close>, owner and group not set.\<close>

definition file_foo :: File where
  "file_foo = NewFile StatePresent ''/etc/foo'' (Some ''0644'') None None"

text \<open>The same path, desired absent.\<close>

definition file_gone :: File where
  "file_gone = NewFile StateAbsent ''/etc/foo'' None None None"

definition props_0644 :: FileProperties where
  "props_0644 = \<lparr>Mode = ''0644'', Owner = ''root'', Group = ''root'', Checksum = ''c0ffee''\<rparr>"

definition not_found :: ClientError where
  "not_found =
     \<lparr>isNotFound = True, errorPayload = Some (404, ''File not found''),
      errorText = ''getFilePropertiesNotFound''\<rparr>"

definition conflict :: ClientError where
  "conflict =
     \<lparr>isNotFound = False, errorPayload = Some (409, ''ETag mismatch''),
      errorText = ''conflict''\<rparr>"

text \<open>An agent on which the file exists with mode \<open>0644\<close> and entity tag \<open>tag1\<close>: a put
  updates it (204, new tag \<open>tag2\<close>), a deletion succeeds.\<close>

definition agent_present :: Client where
  "agent_present =
     \<lparr>GetFileProperties = (\<lambda>p. Inr (Some props_0644, ''tag1'')),
      DeleteFile = (\<lambda>p ifMatch. None),
      PutFile = (\<lambda>p props ifMatch. Inr (None, Some ''tag2'')),
      Upload = (\<lambda>p recursive content. None)\<rparr>"

text \<open>An agent on which the file does not exist: a put creates it (201, tag \<open>tag1\<close>).\<close>

definition agent_absent :: Client where
  "agent_absent =
     \<lparr>GetFileProperties = (\<lambda>p. Inl not_found),
      DeleteFile = (\<lambda>p ifMatch. None),
      PutFile = (\<lambda>p props ifMatch. Inr (Some ''tag1'', None)),
      Upload = (\<lambda>p recursive content. None)\<rparr>"

text \<open>An agent that reports the file with its properties but with no entity tag.\<close>

definition agent_no_etag :: Client where
  "agent_no_etag =
     \<lparr>GetFileProperties = (\<lambda>p. Inr (Some props_0644, '''')),
      DeleteFile = (\<lambda>p ifMatch. None),
      PutFile = (\<lambda>p props ifMatch. Inr (None, Some ''tag2'')),
      Upload = (\<lambda>p recursive content. None)\<rparr>"

text \<open>An agent that refuses every write with a conflict.\<close>

definition agent_conflict :: Client where
  "agent_conflict =
     \<lparr>GetFileProperties = (\<lambda>p. Inr (Some props_0644, ''tag1'')),
      DeleteFile = (\<lambda>p ifMatch. Some conflict),
      PutFile = (\<lambda>p props ifMatch. Inl conflict),
      Upload = (\<lambda>p recursive content. Some conflict)\<rparr>"

text \<open>\<open>file_foo\<close> and \<open>file_gone\<close> after a \<open>Check\<close> against these agents.\<close>

definition file_foo_seen :: File where
  "file_foo_seen = fst (snd (File_Check agent_present file_foo))"



definition no_backup :: backup_store where
  "no_backup = \<lparr>backupPath = ''/backups/etc-foo.tar.gz'', backupFile = BackupMissing\<rparr>"

subsection \<open>Notions for stating the properties of a run\<close>

text \<open>
  The reporter's \<open>Rollback\<close> event directly precedes each call of a resource's
  \<open>Rollback\<close>, and its \<open>Success\<close> event directly follows each call of \<open>Apply\<close> that
  returned nil; nothing else emits these events. So the two lists below are the
  sequence of \<open>Rollback\<close> calls and the sequence of successful \<open>Apply\<close> calls, by node
  name.
\<close>

fun rollback_calls :: "event list \<Rightarrow> string list" where
  "rollback_calls [] = []"
| "rollback_calls (ReportRollback ident name # ev) = ident # rollback_calls ev"
| "rollback_calls (e # ev) = rollback_calls ev"

fun apply_successes :: "event list \<Rightarrow> string list" where
  "apply_successes [] = []"
| "apply_successes (ReportSuccess ident name # ev) = ident # apply_successes ev"
| "apply_successes (e # ev) = apply_successes ev"

text \<open>The number of attempts of a summary that satisfy \<open>P\<close>.\<close>

definition count_attempts :: "Summary \<Rightarrow> (Attempt \<Rightarrow> bool) \<Rightarrow> nat" where
  "count_attempts s P = card {ident. \<exists>a. Attempts s ident = Some a \<and> P a}"



text \<open>
  The invariant that \<open>Add\<close> and \<open>Run\<close> maintain of an orchestrator (its fields are not
  exported): the specs and the graph's nodes have the same names, every edge of the
  graph ends in a node, and a cached order does not repeat a name.
\<close>

definition wf_orch :: "'w Orchestrator \<Rightarrow> bool" where
  "wf_orch orch =
     (dom (specs orch) = dom (nodes (graph orch)) \<and> closed (graph orch) \<and>
      (\<forall>cached. cachedOrder (graph orch) = Some cached \<longrightarrow> distinct cached))"

subsection \<open>Example graphs for the cache\<close>

text \<open>\<open>g := New(); g.AddNode(NewNode("A")); g.Sort(); g.AddNode(NewNode("B"))\<close>: the graph
  before the sort, after the sort, and after the second \<open>AddNode\<close>.\<close>

definition g_A :: Graph where
  "g_A = AddNode New [NewNode ''A'']"

definition g_A_sorted :: Graph where
  "g_A_sorted = (case Graph_Sort g_A [''A''] [''A''] of Some (res, g') \<Rightarrow> g' | None \<Rightarrow> g_A)"

definition g_AB :: Graph where
  "g_AB = AddNode g_A_sorted [NewNode ''B'']"

subsection \<open>Example resources and orchestrators\<close>

text \<open>Resources over a world without state: one that needs changes and applies, one
  whose \<open>Apply\<close> fails, one whose \<open>Rollback\<close> fails, one that fails validation.\<close>

definition res_ok :: "string \<Rightarrow> unit Resource" where
  "res_ok name =
     \<lparr>ResourceName = name, Check = (\<lambda>w. (Inr True, w)), Diff = (\<lambda>w. (Inr ''+ change'', w)),
      Apply = (\<lambda>w. (None, w)), Rollback = (\<lambda>w. (None, w)), Validate = Some None,
      Backup = None\<rparr>"

definition res_apply_fails :: "string \<Rightarrow> unit Resource" where
  "res_apply_fails name = (res_ok name)\<lparr>Apply := (\<lambda>w. (Some (ErrorMsg ''apply refused''), w))\<rparr>"

definition res_rollback_fails :: "string \<Rightarrow> unit Resource" where
  "res_rollback_fails name =
     (res_ok name)\<lparr>Rollback := (\<lambda>w. (Some (ErrorMsg ''rollback refused''), w))\<rparr>"

definition res_invalid :: "string \<Rightarrow> unit Resource" where
  "res_invalid name =
     (res_ok name)\<lparr>Validate := Some (Some (ErrorMsg ''file path cannot be empty''))\<rparr>"

definition no_options :: Options where
  "no_options = \<lparr>DryRun = False, BackupEnabled = False, Concurrency = 1\<rparr>"

text \<open>An orchestrator with the single spec \<open>A\<close>.\<close>

definition orch_A :: "unit Orchestrator" where
  "orch_A =
     snd (Add (NewOrchestrator no_options)
            \<lparr>Id = ''A'', Resource = Some (res_ok ''file:/a''), Dependencies = []\<rparr>)"

text \<open>
  The spec's scenario "Mid-run failure with rollback", with a twist: \<open>A\<close>, \<open>B\<close>, \<open>C\<close> in
  a line, \<open>A\<close> and \<open>B\<close> apply, the \<open>Apply\<close> of \<open>C\<close> fails; and the \<open>Rollback\<close> of \<open>B\<close> fails
  too.
\<close>

definition orch_ABC :: "unit Orchestrator" where
  "orch_ABC =
     snd (Add
       (snd (Add
          (snd (Add (NewOrchestrator no_options)
                  \<lparr>Id = ''A'', Resource = Some (res_ok ''file:/a''), Dependencies = []\<rparr>))
          \<lparr>Id = ''B'', Resource = Some (res_rollback_fails ''file:/b''),
           Dependencies = [''A'']\<rparr>))
       \<lparr>Id = ''C'', Resource = Some (res_apply_fails ''file:/c''), Dependencies = [''B'']\<rparr>)"

text \<open>A context that is never done.\<close>

definition background :: "unit \<Rightarrow> error option" where
  "background w = None"

subsection \<open>Invariants of the loop of a run\<close>



subsection \<open>Reading the result of a run\<close>











section \<open>The topological sort: lemmas\<close>

lemma before_iff:
  "before d s xs \<longleftrightarrow> (\<exists>i j. i < j \<and> j < length xs \<and> xs ! i = d \<and> xs ! j = s)"
proof (induction xs)
  case Nil
  then show ?case by simp
next
  case (Cons x xs)
  show ?case
  proof
    assume "before d s (x # xs)"
    then consider "x = d" "s \<in> set xs" | "before d s xs" by auto
    then show "\<exists>i j. i < j \<and> j < length (x # xs) \<and> (x # xs) ! i = d \<and> (x # xs) ! j = s"
    proof cases
      case 1
      then obtain k where "k < length xs" "xs ! k = s" by (auto simp: in_set_conv_nth)
      then have "0 < Suc k \<and> Suc k < length (x # xs) \<and> (x # xs) ! 0 = d \<and> (x # xs) ! Suc k = s"
        using 1 by simp
      then show ?thesis by blast
    next
      case 2
      then obtain i j where "i < j" "j < length xs" "xs ! i = d" "xs ! j = s"
        using Cons.IH by blast
      then have "Suc i < Suc j \<and> Suc j < length (x # xs) \<and> (x # xs) ! Suc i = d \<and> (x # xs) ! Suc j = s"
        by simp
      then show ?thesis by blast
    qed
  next
    assume "\<exists>i j. i < j \<and> j < length (x # xs) \<and> (x # xs) ! i = d \<and> (x # xs) ! j = s"
    then obtain i j where ij: "i < j" "j < length (x # xs)" "(x # xs) ! i = d" "(x # xs) ! j = s"
      by blast
    then obtain j' where j': "j = Suc j'" by (cases j) auto
    show "before d s (x # xs)"
    proof (cases i)
      case 0
      then have "x = d" "s \<in> set xs" using ij j' by auto
      then show ?thesis by simp
    next
      case (Suc i')
      then have "i' < j' \<and> j' < length xs \<and> xs ! i' = d \<and> xs ! j' = s" using ij j' by auto
      then have "before d s xs" using Cons.IH by blast
      then show ?thesis by simp
    qed
  qed
qed

lemma before_append_left: "before d s xs \<Longrightarrow> before d s (xs @ ys)"
  by (induction xs) auto

lemma before_append_split: "d \<in> set xs \<Longrightarrow> s \<in> set ys \<Longrightarrow> before d s (xs @ ys)"
  by (induction xs) auto

lemma before_trans:
  assumes "distinct xs" "before a b xs" "before b c xs"
  shows "before a c xs"
proof -
  obtain i j where ij: "i < j" "j < length xs" "xs ! i = a" "xs ! j = b"
    using assms(2) unfolding before_iff by blast
  obtain k l where kl: "k < l" "l < length xs" "xs ! k = b" "xs ! l = c"
    using assms(3) unfolding before_iff by blast
  have "k < length xs" using kl by simp
  from nth_eq_iff_index_eq[OF assms(1) ij(2) this] have "j = k" using ij(4) kl(3) by simp
  then have "i < l \<and> l < length xs \<and> xs ! i = a \<and> xs ! l = c" using ij kl by simp
  then show ?thesis unfolding before_iff by blast
qed

lemma before_irrefl:
  assumes "distinct xs" shows "\<not> before a a xs"
proof
  assume "before a a xs"
  then obtain i j where ij: "i < j" "j < length xs" "xs ! i = a" "xs ! j = a"
    unfolding before_iff by blast
  have "i < length xs" using ij by simp
  from nth_eq_iff_index_eq[OF assms this ij(2)] have "i = j" using ij(3,4) by simp
  then show False using ij by simp
qed

lemma rem_deg_nonneg: "0 \<le> rem_deg g S v"
  by (simp add: rem_deg_def sum_nonneg)

lemma rem_deg_remove:
  "finite S \<Longrightarrow> n \<in> S \<Longrightarrow>
   rem_deg g S v = int (count_list (edges_of g n) v) + rem_deg g (S - {n}) v"
  by (simp add: rem_deg_def sum.remove)

lemma rem_deg_zero_iff:
  "finite S \<Longrightarrow> rem_deg g S v = 0 \<longleftrightarrow> (\<forall>u\<in>S. v \<notin> set (edges_of g u))"
  by (simp add: rem_deg_def sum_nonneg_eq_0_iff count_list_0_iff)

lemma geti_upd: "geti (m(k \<mapsto> d)) v = (if v = k then d else geti m v)"
  by (simp add: geti_def)

lemma fold_relax_deg:
  "geti (fst (fold relax ms (i, q))) v = geti i v - int (count_list ms v)"
  by (induction ms arbitrary: i q) (auto simp: relax_def geti_upd)

lemma fold_relax_queue:
  assumes "\<forall>v\<in>set ms. int (count_list ms v) \<le> geti i v"
  shows "\<exists>new. snd (fold relax ms (i, q)) = q @ new \<and> distinct new \<and>
           set new = {v \<in> set ms. geti i v = int (count_list ms v)}"
  using assms
proof (induction ms arbitrary: i q)
  case Nil
  then show ?case by simp
next
  case (Cons m ms)
  define i1 where "i1 = i(m \<mapsto> geti i m - 1)"
  define q1 where "q1 = (if geti i m - 1 = 0 then q @ [m] else q)"
  have step: "fold relax (m # ms) (i, q) = fold relax ms (i1, q1)"
    by (simp add: relax_def i1_def q1_def)
  have i1_m: "geti i1 m = geti i m - 1" by (simp add: i1_def geti_upd)
  have i1_other: "geti i1 v = geti i v" if "v \<noteq> m" for v
    using that by (simp add: i1_def geti_upd)
  have cm: "count_list (m # ms) m = count_list ms m + 1" by simp
  have co: "count_list (m # ms) v = count_list ms v" if "v \<noteq> m" for v
    using that by simp
  have pm: "int (count_list ms m) + 1 \<le> geti i m"
  proof -
    have "m \<in> set (m # ms)" by simp
    then have "int (count_list (m # ms) m) \<le> geti i m" using Cons.prems by blast
    then show ?thesis by simp
  qed
  have po: "int (count_list ms v) \<le> geti i v" if "v \<in> set ms" "v \<noteq> m" for v
  proof -
    have "v \<in> set (m # ms)" using that by simp
    then have "int (count_list (m # ms) v) \<le> geti i v" using Cons.prems by blast
    then show ?thesis using co[OF that(2)] by simp
  qed
  have pre: "\<forall>v\<in>set ms. int (count_list ms v) \<le> geti i1 v"
  proof
    fix v assume v: "v \<in> set ms"
    show "int (count_list ms v) \<le> geti i1 v"
    proof (cases "v = m")
      case True
      then show ?thesis using pm i1_m by simp
    next
      case False
      then show ?thesis using po[OF v False] i1_other[OF False] by simp
    qed
  qed
  from Cons.IH[OF pre, of q1] obtain new1 where
    n1: "snd (fold relax ms (i1, q1)) = q1 @ new1" "distinct new1"
        "set new1 = {v \<in> set ms. geti i1 v = int (count_list ms v)}"
    by blast
  have mem1: "v \<in> set new1 \<longleftrightarrow> v \<in> set ms \<and> geti i1 v = int (count_list ms v)" for v
    using n1(3) by simp
  have tgt: "v \<in> {v \<in> set (m # ms). geti i v = int (count_list (m # ms) v)} \<longleftrightarrow>
             (v = m \<and> geti i m = int (count_list ms m) + 1) \<or>
             (v \<noteq> m \<and> v \<in> set ms \<and> geti i v = int (count_list ms v))" for v
    by (cases "v = m") (simp_all add: add.commute)
  show ?case
  proof (cases "geti i m - 1 = 0")
    case True
    have c0: "count_list ms m = 0" using pm True by simp
    then have notin: "m \<notin> set ms" by (simp add: count_list_0_iff)
    have a: "snd (fold relax (m # ms) (i, q)) = q @ (m # new1)"
      using step n1(1) True by (simp add: q1_def)
    have b: "distinct (m # new1)" using n1(2) mem1 notin by simp
    have c: "set (m # new1) = {v \<in> set (m # ms). geti i v = int (count_list (m # ms) v)}"
    proof (rule set_eqI)
      fix v
      have "v \<in> set (m # new1) \<longleftrightarrow> (v = m \<and> geti i m = int (count_list ms m) + 1) \<or>
             (v \<noteq> m \<and> v \<in> set ms \<and> geti i v = int (count_list ms v))"
      proof (cases "v = m")
        case True
        then show ?thesis using \<open>geti i m - 1 = 0\<close> c0 by simp
      next
        case False
        then show ?thesis using mem1 i1_other[OF False] by simp
      qed
      then show "v \<in> set (m # new1) \<longleftrightarrow> v \<in> {v \<in> set (m # ms). geti i v = int (count_list (m # ms) v)}"
        using tgt[of v] by blast
    qed
    from a b c show ?thesis by blast
  next
    case False
    have a: "snd (fold relax (m # ms) (i, q)) = q @ new1"
      using step n1(1) False by (simp add: q1_def)
    have c: "set new1 = {v \<in> set (m # ms). geti i v = int (count_list (m # ms) v)}"
    proof (rule set_eqI)
      fix v
      have "v \<in> set new1 \<longleftrightarrow> (v = m \<and> geti i m = int (count_list ms m) + 1) \<or>
             (v \<noteq> m \<and> v \<in> set ms \<and> geti i v = int (count_list ms v))"
      proof (cases "v = m")
        case True
        have "m \<in> set ms" if "geti i m = int (count_list ms m) + 1"
        proof (rule ccontr)
          assume "m \<notin> set ms"
          then have "count_list ms m = 0" by (simp add: count_list_0_iff)
          then show False using that False by simp
        qed
        then show ?thesis using True mem1[of m] i1_m by auto
      next
        case False
        then show ?thesis using mem1 i1_other[OF False] by simp
      qed
      then show "v \<in> set new1 \<longleftrightarrow> v \<in> {v \<in> set (m # ms). geti i v = int (count_list (m # ms) v)}"
        using tgt[of v] by blast
    qed
    from a n1(2) c show ?thesis by blast
  qed
qed

lemma geta_upd: "geta (m(k \<mapsto> d)) v = (if v = k then d else geta m v)"
  by (simp add: geta_def)

lemma fold_count_edge_deg:
  "geti (fst (fold (count_edge name) ts (i, a))) v = geti i v + int (count_list ts v)"
  by (induction ts arbitrary: i a) (simp_all add: count_edge_def geti_upd)

lemma fold_count_edge_adj:
  "geta (snd (fold (count_edge name) ts (i, a))) u =
     (if u = name then geta a name @ ts else geta a u)"
  by (induction ts arbitrary: i a) (simp_all add: count_edge_def geta_upd)

lemma fold_count_edge_dom:
  "dom (fst (fold (count_edge name) ts (i, a))) = dom i \<union> set ts"
  by (induction ts arbitrary: i a) (auto simp: count_edge_def)

lemma init_node_deg:
  "geti (fst (init_node g name s)) v = geti (fst s) v + int (count_list (edges_of g name) v)"
proof (cases "nodes g name")
  case None
  then show ?thesis by (simp add: init_node_def edges_of_def)
next
  case (Some node)
  obtain i a where s: "s = (i, a)" by (cases s)
  show ?thesis
    using Some by (simp add: init_node_def edges_of_def s fold_count_edge_deg geti_upd) (simp add: geti_def)
qed

lemma init_node_adj:
  "geta (snd (init_node g name s)) u =
     (if u = name then geta (snd s) name @ edges_of g name else geta (snd s) u)"
proof (cases "nodes g name")
  case None
  then show ?thesis by (simp add: init_node_def edges_of_def)
next
  case (Some node)
  obtain i a where s: "s = (i, a)" by (cases s)
  show ?thesis
    using Some by (simp add: init_node_def edges_of_def s fold_count_edge_adj geta_upd) (simp add: geta_def)
qed

lemma init_node_dom:
  "dom (fst (init_node g name s)) =
     dom (fst s) \<union> ({name} \<inter> dom (nodes g)) \<union> set (edges_of g name)"
proof (cases "nodes g name")
  case None
  then show ?thesis by (auto simp: init_node_def edges_of_def)
next
  case (Some node)
  obtain i a where s: "s = (i, a)" by (cases s)
  show ?thesis
    using Some by (auto simp: init_node_def edges_of_def s fold_count_edge_dom)
qed

lemma init_fold_deg:
  "geti (fst (fold (init_node g) ks s)) v =
     geti (fst s) v + (\<Sum>u\<leftarrow>ks. int (count_list (edges_of g u) v))"
  by (induction ks arbitrary: s) (simp_all add: init_node_deg)

lemma init_fold_adj:
  "distinct ks \<Longrightarrow> geta (snd (fold (init_node g) ks s)) u =
     (if u \<in> set ks then geta (snd s) u @ edges_of g u else geta (snd s) u)"
  by (induction ks arbitrary: s) (auto simp: init_node_adj)

lemma init_fold_dom:
  "dom (fst (fold (init_node g) ks s)) =
     dom (fst s) \<union> (set ks \<inter> dom (nodes g)) \<union> (\<Union>u\<in>set ks. set (edges_of g u))"
  by (induction ks arbitrary: s) (auto simp: init_node_dom)

lemma closed_edges_of: "closed g \<Longrightarrow> set (edges_of g u) \<subseteq> dom (nodes g)"
proof (cases "nodes g u")
  case None
  then show ?thesis by (simp add: edges_of_def)
next
  case (Some node)
  assume "closed g"
  then have "set (edges node) \<subseteq> dom (nodes g)" using Some unfolding closed_def by blast
  then show ?thesis using Some by (simp add: edges_of_def)
qed

lemma edge_source: "edge g d s \<Longrightarrow> d \<in> dom (nodes g)"
  by (cases "nodes g d") (auto simp: edge_def edges_of_def)

lemma geti_empty: "geti Map.empty v = 0"
  by (simp add: geti_def)

lemma geta_empty: "geta Map.empty v = []"
  by (simp add: geta_def)

lemma init_maps_deg:
  assumes "distinct order1" "set order1 = dom (nodes g)"
  shows "geti (fst (init_maps g order1)) v = rem_deg g (dom (nodes g)) v"
  using assms
  by (simp add: init_maps_def init_fold_deg geti_empty rem_deg_def sum_list_distinct_conv_sum_set)

lemma init_maps_adj:
  assumes "distinct order1" "set order1 = dom (nodes g)" "n \<in> dom (nodes g)"
  shows "geta (snd (init_maps g order1)) n = edges_of g n"
  using assms by (simp add: init_maps_def init_fold_adj geta_empty)

lemma init_maps_dom:
  assumes "closed g" "set order1 = dom (nodes g)"
  shows "dom (fst (init_maps g order1)) = dom (nodes g)"
  using assms closed_edges_of[OF assms(1)]
  by (auto simp: init_maps_def init_fold_dom)

lemma kahn_step:
  assumes cl: "closed g" and fin: "finite (dom (nodes g))"
    and inv: "kahn_inv g (n # q) i out"
  shows "kahn_inv g (snd (fold relax (edges_of g n) (i, q)))
           (fst (fold relax (edges_of g n) (i, q))) (out @ [n])"
proof -
  let ?V = "dom (nodes g)"
  let ?ms = "edges_of g n"
  let ?S = "?V - set out"
  let ?S' = "?V - set (out @ [n])"
  let ?L = "out @ n # q"
  have dist: "distinct ?L" and sub: "set ?L \<subseteq> ?V"
    and deg: "\<And>v. geti i v = rem_deg g ?S v"
    and mem: "\<And>v. v \<in> set ?L \<longleftrightarrow> v \<in> ?V \<and> rem_deg g ?S v = 0"
    and ord: "\<And>d s. edge g d s \<Longrightarrow> s \<in> set ?L \<Longrightarrow> before d s ?L"
    using inv unfolding kahn_inv_def by blast+
  have nV: "n \<in> ?V" using sub by simp
  have nS: "n \<in> ?S" using nV dist by simp
  have finS: "finite ?S" and finS': "finite ?S'" using fin by simp_all
  have S': "?S' = ?S - {n}" by auto
  have split: "rem_deg g ?S v = int (count_list ?ms v) + rem_deg g ?S' v" for v
    using rem_deg_remove[OF finS nS] S' by simp
  have pre: "\<forall>v\<in>set ?ms. int (count_list ?ms v) \<le> geti i v"
    using deg split rem_deg_nonneg[of g ?S'] by (simp add: add_increasing2)
  obtain new where new: "snd (fold relax ?ms (i, q)) = q @ new" "distinct new"
      "set new = {v \<in> set ?ms. geti i v = int (count_list ?ms v)}"
    using fold_relax_queue[OF pre, of q] by blast
  have new_iff: "v \<in> set new \<longleftrightarrow> v \<in> set ?ms \<and> rem_deg g ?S' v = 0" for v
    using new(3) deg[of v] split[of v] by auto
  have msV: "set ?ms \<subseteq> ?V" using closed_edges_of[OF cl] .
  have new_notL: "v \<notin> set ?L" if "v \<in> set new" for v
  proof
    assume "v \<in> set ?L"
    then have "rem_deg g ?S v = 0" using mem by blast
    moreover have "0 < count_list ?ms v" using that new_iff count_list_0_iff[of ?ms v] by auto
    ultimately show False using split[of v] rem_deg_nonneg[of g ?S' v] by simp
  qed
  let ?L' = "(out @ [n]) @ (q @ new)"
  have L': "?L' = ?L @ new" by simp
  have i1: "distinct ?L'"
    unfolding L' using dist new(2) new_notL by (simp only: distinct_append) blast
  have i2: "set ?L' \<subseteq> ?V"
    unfolding L' using sub msV new_iff by auto
  have i3: "geti (fst (fold relax ?ms (i, q))) v = rem_deg g ?S' v" for v
    using fold_relax_deg[of ?ms i q v] deg[of v] split[of v] by simp
  have i4: "v \<in> set ?L' \<longleftrightarrow> v \<in> ?V \<and> rem_deg g ?S' v = 0" for v
  proof
    assume "v \<in> set ?L'"
    then consider "v \<in> set ?L" | "v \<in> set new" unfolding L' by auto
    then show "v \<in> ?V \<and> rem_deg g ?S' v = 0"
    proof cases
      case 1
      then have "v \<in> ?V" "rem_deg g ?S v = 0" using mem by blast+
      then show ?thesis using split[of v] rem_deg_nonneg[of g ?S' v] by simp
    next
      case 2
      then show ?thesis using new_iff msV by auto
    qed
  next
    assume a: "v \<in> ?V \<and> rem_deg g ?S' v = 0"
    show "v \<in> set ?L'"
    proof (cases "v \<in> set ?ms")
      case True
      then have "v \<in> set new" using a new_iff by simp
      then show ?thesis by simp
    next
      case False
      then have "count_list ?ms v = 0" by (simp add: count_list_0_iff)
      then have "rem_deg g ?S v = 0" using a split[of v] by simp
      then have "v \<in> set ?L" using a mem by blast
      then show ?thesis unfolding L' by auto
    qed
  qed
  have i5: "before d s ?L'" if e: "edge g d s" and s: "s \<in> set ?L'" for d s
  proof (cases "s \<in> set ?L")
    case True
    have "before d s ?L" using ord[OF e True] .
    from before_append_left[OF this] show ?thesis unfolding L' .
  next
    case False
    then have snew: "s \<in> set new" using s unfolding L' by auto
    then have "rem_deg g ?S' s = 0" using new_iff by simp
    then have "\<forall>u\<in>?S'. s \<notin> set (edges_of g u)"
      using rem_deg_zero_iff[OF finS'] by blast
    moreover have "s \<in> set (edges_of g d)" using e by (simp add: edge_def)
    ultimately have "d \<notin> ?S'" by blast
    then have "d \<in> set (out @ [n])" using edge_source[OF e] by blast
    then have "d \<in> set ?L" by auto
    from before_append_split[OF this snew] show ?thesis unfolding L' .
  qed
  show ?thesis
    unfolding kahn_inv_def new(1)
    apply (intro conjI allI impI)
    subgoal using i1 .
    subgoal using i2 .
    subgoal for v using i3[of v] .
    subgoal for v using i4[of v] .
    subgoal for d s using i5[of d s] by blast
    done
qed

lemma kahn_inv_length:
  assumes "finite (dom (nodes g))" "kahn_inv g q i out"
  shows "length out + length q \<le> card (dom (nodes g))"
proof -
  have d: "distinct (out @ q)" and s: "set (out @ q) \<subseteq> dom (nodes g)"
    using assms(2) unfolding kahn_inv_def by blast+
  have "length (out @ q) = card (set (out @ q))" using d by (simp only: distinct_card)
  also have "\<dots> \<le> card (dom (nodes g))" using s assms(1) by (rule card_mono[rotated])
  finally show ?thesis by simp
qed

lemma kahn_loop_inv:
  assumes cl: "closed g" and fin: "finite (dom (nodes g))"
    and adj: "\<And>n. n \<in> dom (nodes g) \<Longrightarrow> geta adj n = edges_of g n"
  shows "kahn_inv g q i out \<Longrightarrow> \<exists>r i'. kahn_loop adj q i out = Some r \<and> kahn_inv g [] i' r"
proof (induction "card (dom (nodes g)) - length out" arbitrary: q i out rule: less_induct)
  case less
  show ?case
  proof (cases q)
    case Nil
    then have "kahn_loop adj q i out = Some out" by (subst kahn_loop.simps) simp
    then show ?thesis using less.prems Nil by blast
  next
    case (Cons n q')
    have inv: "kahn_inv g (n # q') i out" using less.prems Cons by simp
    have nV: "n \<in> dom (nodes g)" using inv unfolding kahn_inv_def by simp
    let ?q1 = "snd (fold relax (edges_of g n) (i, q'))"
    let ?i1 = "fst (fold relax (edges_of g n) (i, q'))"
    have inv1: "kahn_inv g ?q1 ?i1 (out @ [n])" using kahn_step[OF cl fin inv] .
    have "length out + length (n # q') \<le> card (dom (nodes g))"
      using kahn_inv_length[OF fin inv] .
    then have dec: "card (dom (nodes g)) - length (out @ [n]) < card (dom (nodes g)) - length out"
      by simp
    from less.hyps[OF dec inv1] obtain r i' where
      r: "kahn_loop adj ?q1 ?i1 (out @ [n]) = Some r" "kahn_inv g [] i' r" by blast
    have "kahn_loop adj q i out = kahn_loop adj ?q1 ?i1 (out @ [n])"
      by (subst kahn_loop.simps) (simp add: Cons adj[OF nV])
    then show ?thesis using r by auto
  qed
qed

lemma kahn_inv_init:
  assumes cl: "closed g"
    and o1: "distinct order1" "set order1 = dom (nodes g)"
    and o2: "distinct order2" "set order2 = dom (fst (init_maps g order1))"
  shows "kahn_inv g (filter (\<lambda>name. fst (init_maps g order1) name = Some 0) order2)
           (fst (init_maps g order1)) []"
proof -
  let ?V = "dom (nodes g)"
  let ?i = "fst (init_maps g order1)"
  let ?q = "filter (\<lambda>name. ?i name = Some 0) order2"
  have fin: "finite ?V" using o1(2) by (metis List.finite_set)
  have domi: "dom ?i = ?V" using init_maps_dom[OF cl o1(2)] .
  have deg: "geti ?i v = rem_deg g ?V v" for v using init_maps_deg[OF o1] .
  have zero: "?i v = Some 0 \<longleftrightarrow> v \<in> ?V \<and> rem_deg g ?V v = 0" for v
  proof (cases "?i v")
    case None
    then have "v \<notin> ?V" using domi by auto
    then show ?thesis using None by simp
  next
    case (Some d)
    then have "v \<in> ?V" using domi by auto
    moreover have "geti ?i v = d" using Some by (simp add: geti_def)
    ultimately show ?thesis using Some deg[of v] by simp
  qed
  have setq: "v \<in> set ?q \<longleftrightarrow> v \<in> ?V \<and> rem_deg g ?V v = 0" for v
    using zero[of v] o2(2) domi by auto
  have i5: "before d s ?q" if e: "edge g d s" and s: "s \<in> set ?q" for d s
  proof -
    have "rem_deg g ?V s = 0" using s setq by blast
    then have "\<forall>u\<in>?V. s \<notin> set (edges_of g u)" using rem_deg_zero_iff[OF fin] by blast
    then have False using e edge_source[OF e] by (simp add: edge_def)
    then show ?thesis ..
  qed
  show ?thesis
    unfolding kahn_inv_def
    apply (intro conjI allI impI)
    subgoal using o2(1) by simp
    subgoal using setq by auto
    subgoal for v using deg[of v] by simp
    subgoal for v using setq[of v] by simp
    subgoal for d s using i5[of d s] by simp
    done
qed

lemma edge_trancl_before:
  assumes "distinct out" "\<And>d s. edge g d s \<Longrightarrow> before d s out"
  shows "(a, b) \<in> {(d, s). edge g d s}\<^sup>+ \<Longrightarrow> before a b out"
proof (induction rule: trancl.induct)
  case (r_into_trancl a b)
  then show ?case using assms(2) by simp
next
  case (trancl_into_trancl a b c)
  then have "before b c out" using assms(2) by simp
  from before_trans[OF assms(1) trancl_into_trancl.IH this] show ?case .
qed

lemma Graph_sort_closed_aux:
  assumes cl: "closed g"
    and o1: "distinct order1" "set order1 = dom (nodes g)"
    and o2: "distinct order2" "set order2 = dom (fst (init_maps g order1))"
  shows "\<exists>out. distinct out \<and> set out \<subseteq> dom (nodes g) \<and>
           (length out = card (dom (nodes g)) \<longrightarrow> (\<forall>d s. edge g d s \<longrightarrow> before d s out)) \<and>
           Graph_sort g order1 order2 =
             Some (if length out \<noteq> card (dom (nodes g)) then Inl ErrCircularDependency
                   else Inr out)"
proof -
  let ?V = "dom (nodes g)"
  obtain i a where ia: "init_maps g order1 = (i, a)" by (cases "init_maps g order1")
  have fin: "finite ?V" using o1(2) by (metis List.finite_set)
  have adj: "geta a n = edges_of g n" if "n \<in> ?V" for n
    using init_maps_adj[OF o1 that] ia by simp
  have inv0: "kahn_inv g (filter (\<lambda>name. i name = Some 0) order2) i []"
    using kahn_inv_init[OF cl o1 o2] ia by simp
  from kahn_loop_inv[OF cl fin adj inv0] obtain out i' where
    out: "kahn_loop a (filter (\<lambda>name. i name = Some 0) order2) i [] = Some out"
         "kahn_inv g [] i' out" by blast
  have d: "distinct out" and s: "set out \<subseteq> ?V"
    and mem: "\<And>v. v \<in> set out \<longleftrightarrow> v \<in> ?V \<and> rem_deg g (?V - set out) v = 0"
    and ord: "\<And>d s. edge g d s \<Longrightarrow> s \<in> set out \<Longrightarrow> before d s out"
    using out(2) unfolding kahn_inv_def by simp_all
  have full: "\<forall>d s. edge g d s \<longrightarrow> before d s out" if len: "length out = card ?V"
  proof (intro allI impI)
    fix d s assume e: "edge g d s"
    have "card (set out) = card ?V" using d len by (simp add: distinct_card)
    then have "set out = ?V" using s fin by (simp add: card_subset_eq)
    moreover have "s \<in> ?V" using closed_edges_of[OF cl, of d] e by (auto simp: edge_def)
    ultimately show "before d s out" using ord[OF e] by simp
  qed
  have "Graph_sort g order1 order2 =
          Some (if length out \<noteq> card ?V then Inl ErrCircularDependency else Inr out)"
    by (simp add: Graph_sort_def ia out(1))
  then show ?thesis using d s full by blast
qed

section \<open>The topological sort: order and cycles\<close>

subsection \<open>The example graphs, evaluated\<close>

lemmas graph_ops = AddEdge_def AddEdgeByName_def AddNode_def New_def NewNode_def Node_AddEdge_def Invalidate_def
lemmas sort_ops = Graph_sort_def init_maps_def init_node_def count_edge_def geti_def geta_def relax_def kahn_loop.simps

lemma g_chain_nodes: "nodes g_chain = [''A'' \<mapsto> \<lparr>Name = ''A'', edges = [''B'']\<rparr>, ''B'' \<mapsto> \<lparr>Name = ''B'', edges = [''C'']\<rparr>, ''C'' \<mapsto> \<lparr>Name = ''C'', edges = []\<rparr>]"
  by (simp add: g_chain_def graph_ops fun_upd_twist)

lemma g_chain_closed: "closed g_chain"
  by (auto simp: closed_def g_chain_nodes split: if_splits)

lemma g_chain_sort: "Graph_sort g_chain [''C'', ''A'', ''B''] [''B'', ''C'', ''A''] = Some (Inr [''A'', ''B'', ''C''])"
  by (simp add: g_chain_def graph_ops sort_ops)

lemma g_chain_dom: "dom (nodes g_chain) = {''A'', ''B'', ''C''}"
  by (auto simp: g_chain_nodes split: if_splits)

lemma g_chain_indom: "dom (fst (init_maps g_chain [''C'', ''A'', ''B''])) = {''A'', ''B'', ''C''}"
  by (auto simp add: g_chain_def graph_ops init_maps_def init_node_def count_edge_def geti_def geta_def split: if_splits)

lemma g_cycle_sort: "Graph_sort g_cycle [''A'', ''B''] [''B'', ''A''] = Some (Inl ErrCircularDependency)"
  by (simp add: g_cycle_def graph_ops sort_ops)

lemma g_cycle_has: "has_cycle g_cycle"
proof -
  have ab: "edge g_cycle ''A'' ''B''" by (simp add: edge_def edges_of_def g_cycle_def graph_ops)
  have ba: "edge g_cycle ''B'' ''A''" by (simp add: edge_def edges_of_def g_cycle_def graph_ops)
  have "(''A'', ''B'') \<in> {(d, s). edge g_cycle d s}" using ab by simp
  moreover have "(''B'', ''A'') \<in> {(d, s). edge g_cycle d s}" using ba by simp
  ultimately have "(''A'', ''A'') \<in> {(d, s). edge g_cycle d s}\<^sup>+" by (rule trancl.intros(2)[OF trancl.intros(1)])
  then show ?thesis unfolding has_cycle_def by blast
qed

lemma g_dangling_sort: "Graph_sort g_dangling [''a'', ''c''] [''x'', ''c'', ''a''] = Some (Inr [''c'', ''x''])"
  by (simp add: g_dangling_def graph_ops sort_ops)

lemma g_dangling_dom: "dom (nodes g_dangling) = {''a'', ''c''}"
  by (auto simp: g_dangling_def graph_ops split: if_splits)

lemma g_dangling_indom: "dom (fst (init_maps g_dangling [''a'', ''c''])) = {''a'', ''c'', ''x''}"
  by (auto simp add: g_dangling_def graph_ops init_maps_def init_node_def count_edge_def geti_def geta_def split: if_splits)

subsection \<open>The sort of a closed graph\<close>

text \<open>
  C1, as amended. Let every edge target of the graph be a node of the graph (as
  \<open>AddEdgeByName\<close> and the orchestrator's wiring ensure), and let \<open>order1\<close> and \<open>order2\<close>
  be any orders in which the two \<open>range\<close> loops of \<open>sort\<close> may meet the keys of \<open>g.nodes\<close>
  and of \<open>inDegree\<close>. Then \<open>sort\<close> returns, and \<open>Sort\<close> returns the same when no order is
  cached. A successful result lists every node of the graph exactly once, and whenever
  \<open>d\<close> has an edge to \<open>s\<close> (\<open>s\<close> depends on \<open>d\<close>), \<open>d\<close> stands strictly before \<open>s\<close>. The
  only error is the circular-dependency error, and a graph with a cycle always gets it.
\<close>

theorem Graph_sort_closed:
  assumes "closed g"
    and "distinct order1" and "set order1 = dom (nodes g)"
    and "distinct order2" and "set order2 = dom (fst (init_maps g order1))"
  shows "\<exists>res. Graph_sort g order1 order2 = Some res \<and>
           (cachedOrder g = None \<longrightarrow> map_option fst (Graph_Sort g order1 order2) = Some res) \<and>
           (\<forall>out. res = Inr out \<longrightarrow>
              distinct out \<and> set out = dom (nodes g) \<and> (\<forall>d s. edge g d s \<longrightarrow> before d s out)) \<and>
           (\<forall>err. res = Inl err \<longrightarrow> err = ErrCircularDependency) \<and>
           (has_cycle g \<longrightarrow> res = Inl ErrCircularDependency)"
proof -
  let ?V = "dom (nodes g)"
  from Graph_sort_closed_aux[OF assms] obtain out where
    d: "distinct out" and s: "set out \<subseteq> ?V"
    and ord: "length out = card ?V \<Longrightarrow> (\<forall>d s. edge g d s \<longrightarrow> before d s out)"
    and res: "Graph_sort g order1 order2 =
                Some (if length out \<noteq> card ?V then Inl ErrCircularDependency else Inr out)"
    by blast
  let ?res = "if length out \<noteq> card ?V then Inl ErrCircularDependency else Inr out"
  have fin: "finite ?V" using assms(3) by (metis List.finite_set)
  have c: "cachedOrder g = None \<longrightarrow> map_option fst (Graph_Sort g order1 order2) = Some ?res"
    by (simp add: Graph_Sort_def res)
  have full: "set out = ?V" if "length out = card ?V"
  proof -
    have "card (set out) = card ?V" using d that by (simp add: distinct_card)
    then show ?thesis using s fin by (simp add: card_subset_eq)
  qed
  have ok: "\<forall>o'. ?res = Inr o' \<longrightarrow>
              distinct o' \<and> set o' = ?V \<and> (\<forall>d s. edge g d s \<longrightarrow> before d s o')"
    using d full ord by auto
  have er: "\<forall>err. ?res = Inl err \<longrightarrow> err = ErrCircularDependency" by auto
  have cyc: "has_cycle g \<longrightarrow> ?res = Inl ErrCircularDependency"
  proof
    assume "has_cycle g"
    then obtain v where v: "(v, v) \<in> {(d, s). edge g d s}\<^sup>+" unfolding has_cycle_def by blast
    have "length out \<noteq> card ?V"
    proof
      assume len: "length out = card ?V"
      then have "\<And>d s. edge g d s \<Longrightarrow> before d s out" using ord by blast
      from edge_trancl_before[OF d this v] have "before v v out" .
      then show False using before_irrefl[OF d] by blast
    qed
    then show "?res = Inl ErrCircularDependency" by simp
  qed
  show ?thesis
  proof (intro exI conjI)
    show "Graph_sort g order1 order2 = Some ?res" by (rule res)
    show "cachedOrder g = None \<longrightarrow> map_option fst (Graph_Sort g order1 order2) = Some ?res"
      by (rule c)
    show "\<forall>o'. ?res = Inr o' \<longrightarrow>
              distinct o' \<and> set o' = ?V \<and> (\<forall>d s. edge g d s \<longrightarrow> before d s o')"
      by (rule ok)
    show "\<forall>err. ?res = Inl err \<longrightarrow> err = ErrCircularDependency" by (rule er)
    show "has_cycle g \<longrightarrow> ?res = Inl ErrCircularDependency" by (rule cyc)
  qed
qed

text \<open>The theorem at the linear graph \<open>A \<rightarrow> B \<rightarrow> C\<close> and at the cyclic graph \<open>A \<rightarrow> B \<rightarrow> A\<close>.\<close>

theorem Graph_sort_closed_witness:
  "closed g_chain \<and>
   Graph_sort g_chain [''C'', ''A'', ''B''] [''B'', ''C'', ''A''] = Some (Inr [''A'', ''B'', ''C'']) \<and>
   edge g_chain ''A'' ''B'' \<and> before ''A'' ''B'' [''A'', ''B'', ''C''] \<and>
   edge g_chain ''B'' ''C'' \<and> before ''B'' ''C'' [''A'', ''B'', ''C''] \<and>
   closed g_cycle \<and> has_cycle g_cycle \<and>
   Graph_sort g_cycle [''A'', ''B''] [''B'', ''A''] = Some (Inl ErrCircularDependency)"
proof -
  have h1: "closed g_chain" by (rule g_chain_closed)
  have h2: "distinct [''C'', ''A'', ''B'']" "distinct [''B'', ''C'', ''A'']" by simp_all
  have h3: "set [''C'', ''A'', ''B''] = dom (nodes g_chain)" by (auto simp: g_chain_dom)
  have h4: "set [''B'', ''C'', ''A''] = dom (fst (init_maps g_chain [''C'', ''A'', ''B'']))"
    by (auto simp: g_chain_indom)
  have e1: "edge g_chain ''A'' ''B''" and e2: "edge g_chain ''B'' ''C''"
    by (simp_all add: edge_def edges_of_def g_chain_nodes)
  from Graph_sort_closed[OF h1 h2(1) h3 h2(2) h4] obtain res where
    r: "Graph_sort g_chain [''C'', ''A'', ''B''] [''B'', ''C'', ''A''] = Some res"
       "\<forall>out. res = Inr out \<longrightarrow> (\<forall>d s. edge g_chain d s \<longrightarrow> before d s out)"
    by blast
  have res: "res = Inr [''A'', ''B'', ''C'']" using r(1) g_chain_sort by simp
  have b1: "before ''A'' ''B'' [''A'', ''B'', ''C'']" and b2: "before ''B'' ''C'' [''A'', ''B'', ''C'']"
    using r(2) res e1 e2 by blast+
  have k1: "closed g_cycle" by (auto simp: closed_def g_cycle_def graph_ops split: if_splits)
  have k2: "distinct [''A'', ''B'']" "distinct [''B'', ''A'']" by simp_all
  have k3: "set [''A'', ''B''] = dom (nodes g_cycle)"
    by (auto simp: g_cycle_def graph_ops split: if_splits)
  have k4: "set [''B'', ''A''] = dom (fst (init_maps g_cycle [''A'', ''B'']))"
    by (auto simp add: g_cycle_def graph_ops init_maps_def init_node_def count_edge_def geti_def geta_def split: if_splits)
  from Graph_sort_closed[OF k1 k2(1) k3 k2(2) k4] obtain res2 where
    r2: "Graph_sort g_cycle [''A'', ''B''] [''B'', ''A''] = Some res2"
        "has_cycle g_cycle \<longrightarrow> res2 = Inl ErrCircularDependency"
    by blast
  have "res2 = Inl ErrCircularDependency" using r2(2) g_cycle_has by blast
  then show ?thesis using h1 r(1) res e1 e2 b1 b2 k1 g_cycle_has r2(1) by simp
qed

text \<open>
  C1 as stated, for every graph, fails where an edge leaves the node set. In
  \<open>g_dangling\<close> the node \<open>a\<close> has an edge to itself, a cycle. The queue loop emits \<open>c\<close> and
  then the edge target \<open>x\<close>, which is no node of the graph; the two names make the
  result as long as the node set, so the length test passes and \<open>sort\<close> succeeds. The
  result does not contain \<open>a\<close> at all, let alone before itself.
\<close>

theorem Graph_sort_dangling_counterexample:
  "set [''a'', ''c''] = dom (nodes g_dangling) \<and>
   set [''x'', ''c'', ''a''] = dom (fst (init_maps g_dangling [''a'', ''c''])) \<and>
   has_cycle g_dangling \<and> edge g_dangling ''a'' ''a'' \<and>
   Graph_sort g_dangling [''a'', ''c''] [''x'', ''c'', ''a''] = Some (Inr [''c'', ''x'']) \<and>
   map_option fst (Graph_Sort g_dangling [''a'', ''c''] [''x'', ''c'', ''a'']) = Some (Inr [''c'', ''x'']) \<and>
   \<not> before ''a'' ''a'' [''c'', ''x'']"
proof -
  have e: "edge g_dangling ''a'' ''a''" by (simp add: edge_def edges_of_def g_dangling_def graph_ops)
  then have "(''a'', ''a'') \<in> {(d, s). edge g_dangling d s}\<^sup>+" by (simp add: trancl.intros(1))
  then have c: "has_cycle g_dangling" unfolding has_cycle_def by blast
  have n: "cachedOrder g_dangling = None" by (simp add: g_dangling_def graph_ops)
  have s: "map_option fst (Graph_Sort g_dangling [''a'', ''c''] [''x'', ''c'', ''a'']) = Some (Inr [''c'', ''x''])"
    by (simp add: Graph_Sort_def n g_dangling_sort)
  have o1: "set [''a'', ''c''] = dom (nodes g_dangling)" by (auto simp: g_dangling_dom)
  have o2: "set [''x'', ''c'', ''a''] = dom (fst (init_maps g_dangling [''a'', ''c'']))"
    by (auto simp: g_dangling_indom)
  show ?thesis using e c s o1 o2 g_dangling_sort by simp
qed

section \<open>The file and command resources: theorems\<close>

lemma state_neq: "StateAbsent \<noteq> StatePresent" "StatePresent \<noteq> StateAbsent"
  "StateAbsent \<noteq> ''''" "StatePresent \<noteq> ''''"
  by (simp_all add: StateAbsent_def StatePresent_def)

lemmas file_examples = file_foo_def file_gone_def props_0644_def not_found_def conflict_def
  agent_present_def agent_absent_def agent_no_etag_def agent_conflict_def NewFile_def

lemma file_foo_seen_eq:
  "file_foo_seen =
     file_foo\<lparr>currentState := StatePresent, currentProperties := Some props_0644, etag := ''tag1''\<rparr>"
  by (simp add: file_foo_seen_def File_Check_def agent_present_def)



subsection \<open>Check of a file\<close>

text \<open>
  C4. When \<open>GetFileProperties\<close> fails with a 404 (\<open>fileNotFound\<close>), \<open>Check\<close> records the
  file as absent, clears the current properties and the entity tag, and needs an apply
  exactly when the desired state is present. When the call returns properties and an
  entity tag, \<open>Check\<close> stores both, records the file as present, and needs an apply exactly
  when the desired state is absent or a desired mode, owner or group differs from the
  current one; a desired field that is not set never differs. (A response without a
  payload is not such a success: \<open>Check\<close> returns the error "received empty payload".)
\<close>

theorem File_Check_cases:
  "(\<forall>err. GetFileProperties client (path f) = Inl err \<and> fileNotFound err \<longrightarrow>
      File_Check client f =
        (Inr (desiredState f = StatePresent),
         f\<lparr>currentState := StateAbsent, currentProperties := None, etag := ''''\<rparr>,
         [GetFilePropertiesRequest (path f)])) \<and>
   (\<forall>props tag. GetFileProperties client (path f) = Inr (Some props, tag) \<longrightarrow>
      File_Check client f =
        (Inr (desiredState f = StateAbsent \<or>
              differs (desired_Mode (desiredProperties f)) (Mode props) \<or>
              differs (desired_Owner (desiredProperties f)) (Owner props) \<or>
              differs (desired_Group (desiredProperties f)) (Group props)),
         f\<lparr>currentState := StatePresent, currentProperties := Some props, etag := tag\<rparr>,
         [GetFilePropertiesRequest (path f)])) \<and>
   (\<forall>actual. \<not> differs None actual) \<and>
   (\<forall>d actual. differs (Some d) actual \<longleftrightarrow> d \<noteq> actual)"
  by (auto simp: File_Check_def propertiesMatch_def differs_def)

text \<open>The theorem at \<open>/etc/foo\<close>: missing on the agent, present with the desired mode, and
  present while desired absent.\<close>

theorem File_Check_cases_witness:
  "GetFileProperties agent_absent (path file_foo) = Inl not_found \<and> fileNotFound not_found \<and>
   File_Check agent_absent file_foo =
     (Inr True, file_foo\<lparr>currentState := StateAbsent, currentProperties := None, etag := ''''\<rparr>,
      [GetFilePropertiesRequest ''/etc/foo'']) \<and>
   GetFileProperties agent_present (path file_foo) = Inr (Some props_0644, ''tag1'') \<and>
   File_Check agent_present file_foo =
     (Inr False,
      file_foo\<lparr>currentState := StatePresent, currentProperties := Some props_0644, etag := ''tag1''\<rparr>,
      [GetFilePropertiesRequest ''/etc/foo'']) \<and>
   File_Check agent_present file_gone =
     (Inr True,
      file_gone\<lparr>currentState := StatePresent, currentProperties := Some props_0644, etag := ''tag1''\<rparr>,
      [GetFilePropertiesRequest ''/etc/foo''])"
proof -
  have a: "GetFileProperties agent_absent (path file_foo) = Inl not_found"
    by (simp add: agent_absent_def)
  have b: "fileNotFound not_found" by (simp add: fileNotFound_def not_found_def)
  have c: "GetFileProperties agent_present (path file_foo) = Inr (Some props_0644, ''tag1'')"
    by (simp add: agent_present_def)
  have d: "GetFileProperties agent_present (path file_gone) = Inr (Some props_0644, ''tag1'')"
    by (simp add: agent_present_def)
  have p: "path file_foo = ''/etc/foo''" "path file_gone = ''/etc/foo''"
    "desiredState file_foo = StatePresent" "desiredState file_gone = StateAbsent"
    "desired_Mode (desiredProperties file_foo) = Some ''0644''"
    "desired_Owner (desiredProperties file_foo) = None"
    "desired_Group (desiredProperties file_foo) = None"
    "Mode props_0644 = ''0644''"
    by (simp_all add: file_examples)
  from File_Check_cases[of agent_absent file_foo] a b
  have 1: "File_Check agent_absent file_foo =
     (Inr True, file_foo\<lparr>currentState := StateAbsent, currentProperties := None, etag := ''''\<rparr>,
      [GetFilePropertiesRequest ''/etc/foo''])"
    by (simp add: p)
  from File_Check_cases[of agent_present file_foo] c
  have 2: "File_Check agent_present file_foo =
     (Inr False,
      file_foo\<lparr>currentState := StatePresent, currentProperties := Some props_0644, etag := ''tag1''\<rparr>,
      [GetFilePropertiesRequest ''/etc/foo''])"
    by (simp add: p state_neq differs_def)
  from File_Check_cases[of agent_present file_gone] d
  have 3: "File_Check agent_present file_gone =
     (Inr True,
      file_gone\<lparr>currentState := StatePresent, currentProperties := Some props_0644, etag := ''tag1''\<rparr>,
      [GetFilePropertiesRequest ''/etc/foo''])"
    by (simp add: p)
  from a b c 1 2 3 show ?thesis by simp
qed

subsection \<open>Apply of a file\<close>










subsection \<open>Diff of a file\<close>

text \<open>
  C7 at \<open>/etc/foo\<close>, observed present with exactly the desired mode: \<open>Check\<close> reports that
  no apply is needed, the properties match, and yet \<open>Diff\<close> returns the header line
  \<open>diff -- file: /etc/foo\<close>, not the empty string. The header is written to the builder
  before the comparisons, so the final test \<open>sb.Len() == 0\<close> never holds.
\<close>

theorem File_Diff_without_differences:
  "currentState file_foo_seen = StatePresent \<and> propertiesMatch file_foo_seen \<and>
   File_Check agent_present file_foo_seen = (Inr False, file_foo_seen, [GetFilePropertiesRequest ''/etc/foo'']) \<and>
   File_Diff quote file_foo_seen = Inr (''diff -- file: /etc/foo'' @ [CHR 0x0A]) \<and>
   File_Diff quote file_foo_seen \<noteq> Inr ''''"
  by (simp add: file_foo_seen_eq file_examples File_Diff_def compare_def propertiesMatch_def
        differs_def state_neq File_Check_def StatePresent_def StateAbsent_def)

text \<open>More generally, no file resource ever gets the empty string from \<open>Diff\<close>.\<close>

lemma File_Diff_never_empty: "File_Diff quote f \<noteq> Inr ''''"
  by (simp add: File_Diff_def Let_def split: option.split)

subsection \<open>Check, Backup and Rollback of a command\<close>

text \<open>
  C8. For every command resource and every client, \<open>Check\<close> returns \<open>(true, nil)\<close>,
  \<open>Backup\<close> returns \<open>(false, nil)\<close> and \<open>Rollback\<close> returns nil; none of them changes the
  resource or sends a request to the agent.
\<close>

theorem Command_Check_Backup_Rollback:
  "Command_Check client c = (Inr True, c, []) \<and>
   Command_Backup client c = (Inr False, c, []) \<and>
   Command_Rollback client c = (None, c, [])"
  by (simp add: Command_Check_def Command_Backup_def Command_Rollback_def)

subsection \<open>A failed Apply of a file\<close>

lemma apply_delete_error:
  "fst (apply_delete client f) \<noteq> None \<Longrightarrow>
   lastOperation (fst (snd (apply_delete client f))) = lastOperation f"
  by (cases "etag f = []") (auto simp: apply_delete_def Let_def split: if_splits option.splits)

lemma apply_put_error:
  "fst (apply_put client f) \<noteq> None \<Longrightarrow>
   lastOperation (fst (snd (apply_put client f))) = lastOperation f"
  by (cases "currentProperties f"; cases "etag f = []")
     (auto simp: apply_put_def Let_def split: sum.splits option.splits prod.splits)

text \<open>
  C9. \<open>Apply\<close> resets \<open>lastOperation\<close> to none before anything else and sets it again
  only on success. So whenever \<open>Apply\<close> returns an error, \<open>lastOperation\<close> is none
  afterwards, and a \<open>Rollback\<close> of that resource, against any agent and any backup store,
  sends no request, changes nothing and returns nil.
\<close>

theorem File_Apply_error_then_Rollback:
  "(\<forall>err. fst (File_Apply client f) = Some err \<longrightarrow>
      lastOperation (fst (snd (File_Apply client f))) = OperationNone \<and>
      File_Rollback client' store (fst (snd (File_Apply client f))) =
        (None, fst (snd (File_Apply client f)), []))"
proof (intro allI impI)
  fix err assume e: "fst (File_Apply client f) = Some err"
  have "lastOperation (fst (snd (File_Apply client f))) = OperationNone"
  proof (cases "desiredState f = StateAbsent")
    case True
    then show ?thesis
      using e apply_delete_error[of client "f\<lparr>lastOperation := OperationNone\<rparr>"]
      by (simp add: File_Apply_def)
  next
    case False
    then show ?thesis
      using e apply_put_error[of client "f\<lparr>lastOperation := OperationNone\<rparr>"]
      by (simp add: File_Apply_def)
  qed
  then show "lastOperation (fst (snd (File_Apply client f))) = OperationNone \<and>
      File_Rollback client' store (fst (snd (File_Apply client f))) =
        (None, fst (snd (File_Apply client f)), [])"
    by (simp add: File_Rollback_def)
qed

text \<open>The theorem at an update of \<open>/etc/foo\<close> that the agent refuses with a conflict.\<close>

theorem File_Apply_error_then_Rollback_witness:
  "fst (File_Apply agent_conflict file_foo_seen) = Some (APIError 409 ''ETag mismatch'') \<and>
   lastOperation (fst (snd (File_Apply agent_conflict file_foo_seen))) = OperationNone \<and>
   File_Rollback agent_present no_backup (fst (snd (File_Apply agent_conflict file_foo_seen))) =
     (None, fst (snd (File_Apply agent_conflict file_foo_seen)), [])"
proof -
  have e: "fst (File_Apply agent_conflict file_foo_seen) = Some (APIError 409 ''ETag mismatch'')"
    by (simp add: file_foo_seen_eq file_examples File_Apply_def apply_put_def api_error_def
          getErrorPayload_def state_neq StatePresent_def StateAbsent_def)
  from File_Apply_error_then_Rollback[of agent_conflict file_foo_seen agent_present no_backup] e
  show ?thesis by simp
qed

section \<open>The cached order and the mutations of a graph\<close>

text \<open>\<open>AddNode\<close> leaves the cached order as it is; a successful \<open>AddEdge\<close> or
  \<open>AddEdgeByName\<close> clears it, and \<open>Sort\<close> then computes and caches a new order.\<close>

lemma AddNode_cachedOrder: "cachedOrder (AddNode gr ns) = cachedOrder gr"
  unfolding AddNode_def by (induction ns arbitrary: gr) simp_all

lemma AddEdge_invalidates: "AddEdge gr source targets = (None, gr') \<Longrightarrow> cachedOrder gr' = None"
  by (auto simp: AddEdge_def Invalidate_def split: option.splits)

lemma AddEdgeByName_invalidates:
  "AddEdgeByName gr source targets = (None, gr') \<Longrightarrow> cachedOrder gr' = None"
  by (auto simp: AddEdgeByName_def Invalidate_def split: option.splits)

lemma Graph_Sort_uncached:
  "cachedOrder gr = None \<Longrightarrow> Graph_sort gr order1 order2 = Some (Inr out) \<Longrightarrow>
   Graph_Sort gr order1 order2 = Some (Inr out, gr\<lparr>cachedOrder := Some out\<rparr>)"
  by (simp add: Graph_Sort_def)

text \<open>
  C6 at the graph with the node \<open>A\<close>, sorted (which caches the order \<open>[A]\<close>) and then
  extended by the node \<open>B\<close>. \<open>AddNode\<close> does not call \<open>Invalidate\<close>, unlike \<open>AddEdge\<close> and
  \<open>AddEdgeByName\<close>: the cached order is still \<open>[A]\<close>, and \<open>Sort\<close> returns it, whatever the
  iteration orders, although the graph now has the nodes \<open>A\<close> and \<open>B\<close> and a fresh sort
  yields both.
\<close>

theorem AddNode_keeps_stale_order:
  "Graph_Sort g_A [''A''] [''A''] = Some (Inr [''A''], g_A_sorted) \<and>
   cachedOrder g_A_sorted = Some [''A''] \<and>
   g_AB = AddNode g_A_sorted [NewNode ''B''] \<and>
   dom (nodes g_AB) = {''A'', ''B''} \<and>
   cachedOrder g_AB = Some [''A''] \<and>
   Graph_Sort g_AB [''A'', ''B''] [''A'', ''B''] = Some (Inr [''A''], g_AB) \<and>
   Graph_Sort g_AB [''B'', ''A''] [''B'', ''A''] = Some (Inr [''A''], g_AB) \<and>
   Graph_sort g_AB [''A'', ''B''] [''A'', ''B''] = Some (Inr [''A'', ''B'']) \<and>
   Graph_sort g_AB [''B'', ''A''] [''B'', ''A''] = Some (Inr [''B'', ''A''])"
proof -
  have s: "Graph_sort g_A [''A''] [''A''] = Some (Inr [''A''])"
    by (simp add: g_A_def graph_ops sort_ops)
  have n: "cachedOrder g_A = None" by (simp add: g_A_def graph_ops)
  have S: "Graph_Sort g_A [''A''] [''A''] = Some (Inr [''A''], g_A\<lparr>cachedOrder := Some [''A'']\<rparr>)"
    using Graph_Sort_uncached[OF n s] .
  have gs: "g_A_sorted = g_A\<lparr>cachedOrder := Some [''A'']\<rparr>" by (simp add: g_A_sorted_def S)
  have c: "cachedOrder g_AB = Some [''A'']" by (simp add: g_AB_def AddNode_cachedOrder gs)
  have d: "dom (nodes g_AB) = {''A'', ''B''}"
    by (auto simp: g_AB_def gs g_A_def graph_ops split: if_splits)
  have S2: "Graph_Sort g_AB order1 order2 = Some (Inr [''A''], g_AB)" for order1 order2
    by (simp add: Graph_Sort_def c)
  have f1: "Graph_sort g_AB [''A'', ''B''] [''A'', ''B''] = Some (Inr [''A'', ''B''])"
    by (simp add: g_AB_def gs g_A_def graph_ops sort_ops)
  have f2: "Graph_sort g_AB [''B'', ''A''] [''B'', ''A''] = Some (Inr [''B'', ''A''])"
    by (simp add: g_AB_def gs g_A_def graph_ops sort_ops)
  have S': "Graph_Sort g_A [''A''] [''A''] = Some (Inr [''A''], g_A_sorted)" using S gs by simp
  have cs: "cachedOrder g_A_sorted = Some [''A'']" by (simp add: gs)
  show ?thesis
    apply (intro conjI)
    subgoal by (rule S')
    subgoal by (rule cs)
    subgoal by (rule g_AB_def)
    subgoal by (rule d)
    subgoal by (rule c)
    subgoal by (rule S2)
    subgoal by (rule S2)
    subgoal by (rule f1)
    subgoal by (rule f2)
    done
qed

section \<open>Registration\<close>

text \<open>
  C10. Whenever \<open>Add\<close> returns an error, the orchestrator is unchanged: its specs and its
  graph are what they were. \<open>Add\<close> does return an error for an empty \<open>Id\<close>, for an \<open>Id\<close>
  that is already registered, and for a resource whose \<open>Validate\<close> fails. (And when it
  returns nil, it has registered the spec and added the node.)
\<close>

theorem Add_error_leaves_state:
  "(\<forall>err. fst (Add orch rs) = Some err \<longrightarrow> snd (Add orch rs) = orch) \<and>
   (Id rs = '''' \<longrightarrow> fst (Add orch rs) \<noteq> None) \<and>
   (specs orch (Id rs) \<noteq> None \<longrightarrow> fst (Add orch rs) \<noteq> None) \<and>
   (\<forall>r err. Resource rs = Some r \<and> Validate r = Some (Some err) \<longrightarrow> fst (Add orch rs) \<noteq> None) \<and>
   (fst (Add orch rs) = None \<longrightarrow>
      specs (snd (Add orch rs)) = (specs orch)(Id rs \<mapsto> rs) \<and>
      nodes (graph (snd (Add orch rs))) = (nodes (graph orch))(Id rs \<mapsto> NewNode (Id rs)))"
  by (auto simp: Add_def AddNode_def NewNode_def split: option.splits)

text \<open>The theorem at the orchestrator with the spec \<open>A\<close>: an empty \<open>Id\<close>, the \<open>Id\<close> \<open>A\<close>
  again, and a resource that fails validation under the new \<open>Id\<close> \<open>X\<close>.\<close>

lemmas orch_examples = orch_A_def orch_ABC_def NewOrchestrator_def no_options_def res_ok_def
  res_apply_fails_def res_rollback_fails_def res_invalid_def background_def

theorem Add_error_leaves_state_witness:
  "Add orch_A \<lparr>Id = '''', Resource = Some (res_ok ''file:/x''), Dependencies = []\<rparr> =
     (Some (ErrorMsg ''resource ID cannot be empty''), orch_A) \<and>
   Add orch_A \<lparr>Id = ''A'', Resource = Some (res_ok ''file:/x''), Dependencies = []\<rparr> =
     (Some (ErrorMsg ''duplicate resource spec id: A''), orch_A) \<and>
   Add orch_A \<lparr>Id = ''X'', Resource = Some (res_invalid ''file:''), Dependencies = []\<rparr> =
     (Some (Wrap ''resource validation failed for X'' (ErrorMsg ''file path cannot be empty'')),
      orch_A) \<and>
   specs orch_A ''X'' = None \<and> nodes (graph orch_A) ''X'' = None"
proof -
  let ?r1 = "\<lparr>Id = '''', Resource = Some (res_ok ''file:/x''), Dependencies = []\<rparr>"
  let ?r2 = "\<lparr>Id = ''A'', Resource = Some (res_ok ''file:/x''), Dependencies = []\<rparr>"
  let ?r3 = "\<lparr>Id = ''X'', Resource = Some (res_invalid ''file:''), Dependencies = []\<rparr>"
  have sA: "specs orch_A ''A'' \<noteq> None" "specs orch_A ''X'' = None"
    "nodes (graph orch_A) ''X'' = None"
    by (simp_all add: orch_examples Add_def graph_ops)
  have e1: "fst (Add orch_A ?r1) = Some (ErrorMsg ''resource ID cannot be empty'')"
    by (simp add: Add_def)
  have e2: "fst (Add orch_A ?r2) = Some (ErrorMsg ''duplicate resource spec id: A'')"
    using sA(1) by (simp add: Add_def)
  have e3: "fst (Add orch_A ?r3) =
     Some (Wrap ''resource validation failed for X'' (ErrorMsg ''file path cannot be empty''))"
    using sA(2) by (simp add: Add_def res_invalid_def res_ok_def)
  from Add_error_leaves_state[of orch_A ?r1] e1 have s1: "snd (Add orch_A ?r1) = orch_A" by blast
  from Add_error_leaves_state[of orch_A ?r2] e2 have s2: "snd (Add orch_A ?r2) = orch_A" by blast
  from Add_error_leaves_state[of orch_A ?r3] e3 have s3: "snd (Add orch_A ?r3) = orch_A" by blast
  show ?thesis using e1 e2 e3 s1 s2 s3 sA by (simp add: prod_eq_iff)
qed

section \<open>Properties of the orchestrator's run\<close>

subsection \<open>The phases of one resource\<close>

lemma rollback_calls_append [simp]:
  "rollback_calls (xs @ ys) = rollback_calls xs @ rollback_calls ys"
  by (induction xs rule: rollback_calls.induct) simp_all

lemma apply_successes_append [simp]:
  "apply_successes (xs @ ys) = apply_successes xs @ apply_successes ys"
  by (induction xs rule: apply_successes.induct) simp_all




subsection \<open>One round of the loop\<close>


subsection \<open>The loop over the sorted nodes\<close>




subsection \<open>Counting attempts; the rollback loop\<close>

lemma count_attempts_set:
  "count_attempts s P = card {i \<in> dom (Attempts s). \<exists>a. Attempts s i = Some a \<and> P a}"
proof -
  have "{ident. \<exists>a. Attempts s ident = Some a \<and> P a} =
        {i \<in> dom (Attempts s). \<exists>a. Attempts s i = Some a \<and> P a}" by auto
  then show ?thesis by (simp add: count_attempts_def)
qed





subsection \<open>Wiring keeps the orchestrator well-formed; the classes of attempts\<close>








subsection \<open>The facts of a run\<close>








subsection \<open>The example runs\<close>







lemma count_attempts_empty: "Attempts s = Map.empty \<Longrightarrow> count_attempts s P = 0"
  by (simp add: count_attempts_def)


lemma wf_orch_New: "wf_orch (NewOrchestrator opts)"
  by (simp add: wf_orch_def NewOrchestrator_def New_def closed_def)

lemma Name_NewNode: "Name (NewNode name) = name"
  by (simp add: NewNode_def)

lemma wf_orch_Add: "wf_orch orch \<Longrightarrow> wf_orch (snd (Add orch rs))"
proof -
  assume wf: "wf_orch orch"
  show ?thesis
  proof (cases "fst (Add orch rs)")
    case (Some err)
    then have "snd (Add orch rs) = orch"
      by (auto simp: Add_def split: if_splits option.splits)
    then show ?thesis using wf by simp
  next
    case None
    then have s: "specs (snd (Add orch rs)) = (specs orch)(Id rs \<mapsto> rs)"
      and g: "graph (snd (Add orch rs)) =
                (graph orch)\<lparr>nodes := (nodes (graph orch))(Id rs \<mapsto> NewNode (Id rs))\<rparr>"
      by (auto simp: Add_def AddNode_def Name_NewNode split: if_splits option.splits)
    have cl: "closed (graph orch)" using wf by (simp add: wf_orch_def)
    have "closed (graph (snd (Add orch rs)))"
      unfolding closed_def g
    proof (intro allI impI)
      fix name node
      assume a: "nodes ((graph orch)\<lparr>nodes := (nodes (graph orch))(Id rs \<mapsto> NewNode (Id rs))\<rparr>) name
                   = Some node"
      show "set (edges node) \<subseteq>
              dom (nodes ((graph orch)\<lparr>nodes := (nodes (graph orch))(Id rs \<mapsto> NewNode (Id rs))\<rparr>))"
      proof (cases "name = Id rs")
        case True
        then have "node = NewNode (Id rs)" using a by simp
        then show ?thesis by (simp add: NewNode_def)
      next
        case False
        then have "nodes (graph orch) name = Some node" using a by simp
        then have "set (edges node) \<subseteq> dom (nodes (graph orch))"
          using cl unfolding closed_def by blast
        then show ?thesis by auto
      qed
    qed
    then show ?thesis using wf unfolding wf_orch_def s g by simp
  qed
qed


lemma wf_orch_A: "wf_orch orch_A"
  unfolding orch_A_def by (intro wf_orch_Add wf_orch_New)



subsection \<open>Rollback in reverse order; the outcomes of the attempts\<close>







end
